theory Spec2Isabelle
  imports Main "HOL-Library.Sublist" "HOL-Library.Char_ord" "HOL-Library.List_Lexorder"
    "HOL-Library.Multiset" "HOL-Library.AList"
begin

section \<open>Text: characters, slices, number formatting\<close>

text \<open>
  The script works on Python \<open>str\<close> values. A \<^typ>\<open>char\<close> stands for one code point, so
  \<^const>\<open>length\<close> is Python's \<open>len\<close>; the model covers the code points below 256.
  A Python \<open>int\<close> is an \<^typ>\<open>int\<close>; positions inside a text, which are never negative,
  are \<^typ>\<open>nat\<close>.
\<close>

text \<open>The class \<open>\s\<close> of a \<open>str\<close> pattern: the white space of Python among these code points.\<close>

definition is_space :: "char \<Rightarrow> bool" where
  "is_space c \<longleftrightarrow> (of_char c :: nat) \<in> {9, 10, 11, 12, 13, 28, 29, 30, 31, 32, 133, 160}"

text \<open>The class \<open>\d\<close>: below 256 the decimal digits are \<open>0\<close> to \<open>9\<close>.\<close>

definition is_digit :: "char \<Rightarrow> bool" where
  "is_digit c \<longleftrightarrow> 48 \<le> (of_char c :: nat) \<and> (of_char c :: nat) \<le> 57"

definition digit_val :: "char \<Rightarrow> nat" where
  "digit_val c = of_char c - 48"

definition digit_char :: "nat \<Rightarrow> char" where
  "digit_char d = char_of (48 + d)"

text \<open>\<open>int(ds)\<close> on a run of decimal digits.\<close>

definition int_of_digits :: "string \<Rightarrow> nat" where
  "int_of_digits ds = foldl (\<lambda>acc c. 10 * acc + digit_val c) 0 ds"

text \<open>\<open>str(n)\<close>, as an f-string renders a natural number.\<close>

function str_nat :: "nat \<Rightarrow> string" where
  "str_nat n = (if n < 10 then [digit_char n] else str_nat (n div 10) @ [digit_char (n mod 10)])"
  by pat_completeness auto
termination
  by (relation "measure (\<lambda>n. n)") auto

declare str_nat.simps [simp del]

text \<open>The slices \<open>s[:k]\<close> and \<open>s[k:]\<close>; a negative \<open>k\<close> counts from the end.\<close>

definition slice_to :: "string \<Rightarrow> int \<Rightarrow> string" where
  "slice_to s k = (if k < 0 then take (length s - nat (- k)) s else take (nat k) s)"

definition slice_from :: "string \<Rightarrow> int \<Rightarrow> string" where
  "slice_from s k = (if k < 0 then drop (length s - nat (- k)) s else drop (nat k) s)"

section \<open>The pattern \<open><img\s+src="([^"]+)"\<close>\<close>

definition dquote :: char where
  "dquote = CHR 0x22"

definition not_quote :: "char \<Rightarrow> bool" where
  "not_quote c \<longleftrightarrow> c \<noteq> dquote"

text \<open>
  What \<open>finditer\<close> yields: the span of the whole match (\<open>start()\<close>, \<open>end()\<close>), the span of
  the group (\<open>start(1)\<close>, \<open>end(1)\<close>) and its text (\<open>group(1)\<close>).
\<close>

record img_match =
  start0 :: nat
  end0 :: nat
  start1 :: nat
  end1 :: nat
  group1 :: string

text \<open>
  The part \<open><img\s+src="\<close> tried at the head of a text; the result is the text after it.
  \<open>\s+\<close> is greedy, and giving a white-space character back never helps, since the next
  pattern character is \<open>s\<close>: the longest run is the only candidate.
\<close>

definition tag_prefix :: "string \<Rightarrow> string option" where
  "tag_prefix s =
     (if prefix ''<img'' s then
        (let r = drop 4 s in
         if takeWhile is_space r = [] then None
         else (let r2 = dropWhile is_space r in
               if prefix (''src='' @ [dquote]) r2 then Some (drop 5 r2) else None))
      else None)"

text \<open>
  The whole pattern tried at the head of a text: the offsets of \<open>start(1)\<close>, \<open>end(1)\<close> and
  \<open>end()\<close> from the head. \<open>[^"]+\<close> is greedy and is followed by the quote, so again the
  longest run is the only candidate.
\<close>

definition img_match_at :: "string \<Rightarrow> (nat \<times> nat \<times> nat) option" where
  "img_match_at s =
     (case tag_prefix s of
        None \<Rightarrow> None
      | Some q \<Rightarrow>
          (let url = takeWhile not_quote q in
           if url = [] then None
           else (case dropWhile not_quote q of
                   [] \<Rightarrow> None
                 | _ # _ \<Rightarrow>
                     (let a = length s - length q
                      in Some (a, a + length url, a + length url + 1)))))"

text \<open>
  \<open>finditer\<close>: the matches from left to right, without overlap. \<open>s\<close> is the text not yet
  scanned and \<open>pos\<close> its offset in the content; after a match the scan goes on at its end,
  after a failure one character further.
\<close>

function finditer_from :: "nat \<Rightarrow> string \<Rightarrow> img_match list" where
  "finditer_from pos s =
     (if s = [] then []
      else (case img_match_at s of
              None \<Rightarrow> finditer_from (pos + 1) (tl s)
            | Some (a, b, e) \<Rightarrow>
                \<lparr>start0 = pos, end0 = pos + e, start1 = pos + a, end1 = pos + b,
                 group1 = take (b - a) (drop a s)\<rparr>
                # finditer_from (pos + e) (drop e s)))"
  by pat_completeness auto
termination
  by (relation "measure (\<lambda>(pos, s). length s)")
    (auto simp: img_match_at_def Let_def split: option.splits if_splits list.splits)

declare finditer_from.simps [simp del]

definition finditer :: "string \<Rightarrow> img_match list" where
  "finditer content = finditer_from 0 content"

section \<open>The rewrite engine\<close>

record change =
  index :: nat
  old_url :: string
  new_url :: string
  exists :: bool

text \<open>The f-string \<open>image-{image_index}.webp\<close>.\<close>

definition image_filename :: "nat \<Rightarrow> string" where
  "image_filename image_index = ''image-'' @ str_nat image_index @ ''.webp''"

text \<open>
  The loop over \<open>enumerate(matches)\<close>; the state is \<open>new_content\<close>, \<open>offset\<close> and
  \<open>changes\<close>.
\<close>

fun rewrite_loop ::
  "string list \<Rightarrow> nat \<Rightarrow> img_match list \<Rightarrow> string \<times> int \<times> change list
     \<Rightarrow> string \<times> int \<times> change list" where
  "rewrite_loop available_images i [] st = st"
| "rewrite_loop available_images i (m # ms) (new_content, offset, changes) =
     (let image_index = i + 2;
          expected_filename = image_filename image_index;
          old_url = group1 m
      in if expected_filename \<in> set available_images then
           (let new_url = expected_filename;
                start = int (start1 m) + offset;
                end = int (end1 m) + offset
            in rewrite_loop available_images (i + 1) ms
                 (slice_to new_content start @ new_url @ slice_from new_content end,
                  offset + (int (length new_url) - int (length old_url)),
                  changes @ [\<lparr>index = i + 1, old_url = old_url, new_url = new_url,
                              exists = True\<rparr>]))
         else
           rewrite_loop available_images (i + 1) ms
             (new_content, offset,
              changes @ [\<lparr>index = i + 1, old_url = old_url, new_url = expected_filename,
                          exists = False\<rparr>]))"

definition replace_images_in_content ::
  "string \<Rightarrow> string list \<Rightarrow> bool \<Rightarrow> string \<Rightarrow> string \<times> change list" where
  "replace_images_in_content content available_images dry_run folder_name =
     (let matches = finditer content in
      if matches = [] then (content, [])
      else (case rewrite_loop available_images 0 matches (content, 0, []) of
              (new_content, offset, changes) \<Rightarrow> (new_content, changes)))"

section \<open>Files and folders\<close>

text \<open>
  A directory is the list of its entries, in the order \<open>iterdir\<close> yields them; a file is its
  text. A \<open>Path\<close> is the list of its parts; paths compare part by part, and parts compare
  as strings, which is the order \<open>sorted\<close> uses on \<open>Path\<close> objects. Paths are those of a
  POSIX system: the first part of an absolute path is its root, \<open>/\<close> or \<open>//\<close>.
\<close>

datatype node = File string | Dir "(string \<times> node) list"

type_synonym entries = "(string \<times> node) list"

datatype error = NotADirectoryError | IsADirectoryError | FileNotFoundError | AttributeError

text \<open>
  The script opens text files without a \<open>newline\<close> argument. Reading then gives every line
  ending of the file, \<open>\r\n\<close> or \<open>\r\<close> alone, as \<open>\n\<close>; writing gives every \<open>\n\<close> as
  \<open>os.linesep\<close>, the line separator of the operating system, which the model takes as a
  parameter (\<open>\n\<close> on POSIX systems).
\<close>

definition char_lf :: char where
  "char_lf = CHR 0x0A"

definition char_cr :: char where
  "char_cr = CHR 0x0D"

fun universal_newlines :: "string \<Rightarrow> string" where
  "universal_newlines [] = []"
| "universal_newlines [c] = (if c = char_cr then [char_lf] else [c])"
| "universal_newlines (c # d # ds) =
     (if c = char_cr \<and> d = char_lf then char_lf # universal_newlines ds
      else if c = char_cr then char_lf # universal_newlines (d # ds)
      else c # universal_newlines (d # ds))"

definition write_newlines :: "string \<Rightarrow> string \<Rightarrow> string" where
  "write_newlines os_linesep s = concat (map (\<lambda>c. if c = char_lf then os_linesep else [c]) s)"

definition is_dir :: "node \<Rightarrow> bool" where
  "is_dir n = (case n of Dir _ \<Rightarrow> True | File _ \<Rightarrow> False)"

text \<open>\<open>(folder / name).exists()\<close>: an entry of that name, of any kind.\<close>

definition child_exists :: "node \<Rightarrow> string \<Rightarrow> bool" where
  "child_exists folder name =
     (case folder of Dir es \<Rightarrow> name \<in> fst ` set es | File _ \<Rightarrow> False)"

section \<open>The folder scanner\<close>

text \<open>
  The loop over the two subdirectory names. \<open>iterdir\<close> on a path that exists and is not a
  directory raises \<open>NotADirectoryError\<close>.
\<close>

fun scan_subdirs ::
  "string list \<Rightarrow> entries \<Rightarrow> string list \<Rightarrow> string list list \<Rightarrow> error + string list list" where
  "scan_subdirs base_path base [] folders = Inr folders"
| "scan_subdirs base_path base (subdir # rest) folders =
     (case map_of base subdir of
        None \<Rightarrow> scan_subdirs base_path base rest folders
      | Some (File _) \<Rightarrow> Inl NotADirectoryError
      | Some (Dir children) \<Rightarrow>
          scan_subdirs base_path base rest
            (folders @
             map (\<lambda>(name, folder). base_path @ [subdir, name])
               (filter (\<lambda>(name, folder). is_dir folder \<and> child_exists folder ''article.html'')
                  children)))"

definition find_article_folders :: "string list \<Rightarrow> entries \<Rightarrow> error + string list list" where
  "find_article_folders base_path base =
     (case scan_subdirs base_path base [''articles'', ''feedback-friday''] [] of
        Inl e \<Rightarrow> Inl e
      | Inr folders \<Rightarrow> Inr (sort folders))"

section \<open>The image inventory\<close>

text \<open>
  \<open>re.search(r'image-(\d+)', x).group(1)\<close>: the digits of the leftmost place where
  \<open>image-\<close> is followed by a digit; \<open>None\<close> when there is no such place.
\<close>

fun search_image_number :: "string \<Rightarrow> string option" where
  "search_image_number [] = None"
| "search_image_number (c # cs) =
     (if prefix ''image-'' (c # cs) \<and> takeWhile is_digit (drop 6 (c # cs)) \<noteq> []
      then Some (takeWhile is_digit (drop 6 (c # cs)))
      else search_image_number cs)"

text \<open>The sort key; \<open>.group\<close> on \<open>None\<close> raises \<open>AttributeError\<close>.\<close>

definition image_key :: "string \<Rightarrow> error + nat" where
  "image_key x =
     (case search_image_number x of
        None \<Rightarrow> Inl AttributeError
      | Some ds \<Rightarrow> Inr (int_of_digits ds))"

text \<open>\<open>sorted\<close> computes the key of every element first, and fails if one of them fails.\<close>

fun with_keys :: "string list \<Rightarrow> error + (nat \<times> string) list" where
  "with_keys [] = Inr []"
| "with_keys (x # xs) =
     (case image_key x of
        Inl e \<Rightarrow> Inl e
      | Inr k \<Rightarrow> (case with_keys xs of Inl e \<Rightarrow> Inl e | Inr ps \<Rightarrow> Inr ((k, x) # ps)))"

definition get_available_images :: "entries \<Rightarrow> error + string list" where
  "get_available_images folder_dir =
     (let images = filter (\<lambda>name. prefix ''image-'' name \<and> suffix ''.webp'' name)
                     (map fst folder_dir)
      in case with_keys images of
           Inl e \<Rightarrow> Inl e
         | Inr ps \<Rightarrow> Inr (map snd (sort_key fst ps)))"

section \<open>The content extractor\<close>

definition open_tag :: string where
  \<open>open_tag = ''<div class="content">''\<close>

text \<open>
  The third group \<open></div>\s*</body>\<close> tried at the head of a text. \<open>\s*\<close> is greedy, and the
  character after it must be \<open><\<close>, so the longest run is the only candidate.
\<close>

definition closing_at :: "string \<Rightarrow> bool" where
  "closing_at s \<longleftrightarrow> prefix ''</div>'' s \<and> prefix ''</body>'' (dropWhile is_space (drop 6 s))"

text \<open>
  The lazy group \<open>(.*?)\<close> under \<open>DOTALL\<close>: the least number of characters, of any kind,
  after which the third group matches.
\<close>

fun lazy_body :: "string \<Rightarrow> nat option" where
  "lazy_body [] = (if closing_at [] then Some 0 else None)"
| "lazy_body (c # cs) = (if closing_at (c # cs) then Some 0 else map_option Suc (lazy_body cs))"

text \<open>
  \<open>re.search\<close>: the start positions from left to right; the result is the span of the
  second group.
\<close>

fun content_search :: "nat \<Rightarrow> string \<Rightarrow> (nat \<times> nat) option" where
  "content_search pos [] = None"
| "content_search pos (c # cs) =
     (if prefix open_tag (c # cs) then
        (case lazy_body (drop (length open_tag) (c # cs)) of
           Some n \<Rightarrow> Some (pos + length open_tag, pos + length open_tag + n)
         | None \<Rightarrow> content_search (pos + 1) cs)
      else content_search (pos + 1) cs)"

definition extract_content_section :: "string \<Rightarrow> int \<times> int \<times> string" where
  "extract_content_section html =
     (case content_search 0 html of
        Some (start, end) \<Rightarrow> (int start, int end, take (end - start) (drop start html))
      | None \<Rightarrow> (- 1, - 1, []))"

section \<open>The article processor\<close>

record article_result =
  folder :: string
  path :: string
  changes :: "change list"
  errors :: "string list"
  images_in_html :: nat
  images_available :: nat

definition is_root :: "string \<Rightarrow> bool" where
  "is_root r \<longleftrightarrow> r = ''/'' \<or> r = ''//''"

text \<open>\<open>folder.name\<close>: the last part, the root not counted.\<close>

definition path_name :: "string list \<Rightarrow> string" where
  "path_name p =
     (case p of
        [] \<Rightarrow> []
      | r # tail \<Rightarrow> if is_root r \<and> tail = [] then [] else last p)"

fun join_slash :: "string list \<Rightarrow> string" where
  "join_slash [] = []"
| "join_slash [x] = x"
| "join_slash (x # y # ys) = x @ ''/'' @ join_slash (y # ys)"

text \<open>\<open>str(folder)\<close>: the root, if there is one, and then the other parts joined with \<open>/\<close>.\<close>

definition path_str :: "string list \<Rightarrow> string" where
  "path_str p =
     (case p of
        [] \<Rightarrow> ''.''
      | r # tail \<Rightarrow> if is_root r then r @ join_slash tail else join_slash (r # tail))"

text \<open>
  \<open>repr\<close> of a string that has no quote, no backslash and no unprintable character, which is
  what the expected file names are, and of a list of such strings.
\<close>

definition repr_str :: "string \<Rightarrow> string" where
  "repr_str s = [CHR 0x27] @ s @ [CHR 0x27]"

fun join_comma :: "string list \<Rightarrow> string" where
  "join_comma [] = []"
| "join_comma [x] = x"
| "join_comma (x # y # ys) = x @ '', '' @ join_comma (y # ys)"

definition repr_list :: "string list \<Rightarrow> string" where
  "repr_list xs = ''['' @ join_comma (map repr_str xs) @ '']''"

text \<open>\<open>open(article_path, 'r', encoding='utf-8')\<close> and \<open>f.read()\<close>.\<close>

definition read_article :: "entries \<Rightarrow> error + string" where
  "read_article folder_dir =
     (case map_of folder_dir ''article.html'' of
        None \<Rightarrow> Inl FileNotFoundError
      | Some (Dir _) \<Rightarrow> Inl IsADirectoryError
      | Some (File text) \<Rightarrow> Inr (universal_newlines text))"

text \<open>
  One folder: the line separator of the system, the path of the folder and its entries go
  in, the result and the entries after the call come out. An exception that the function
  does not catch is the \<open>Inl\<close> value.
\<close>

definition process_article ::
  "string \<Rightarrow> string list \<Rightarrow> entries \<Rightarrow> bool \<Rightarrow> error + (article_result \<times> entries)" where
  "process_article os_linesep folder_path folder_dir dry_run =
     (case read_article folder_dir of
        Inl e \<Rightarrow> Inl e
      | Inr html \<Rightarrow>
     (case get_available_images folder_dir of
        Inl e \<Rightarrow> Inl e
      | Inr available_images \<Rightarrow>
     (let result = \<lparr>folder = path_name folder_path, path = path_str folder_path,
                     changes = [], errors = [], images_in_html = 0,
                     images_available = length available_images\<rparr>
      in case extract_content_section html of (start, end, content) \<Rightarrow>
        if start = - 1 then
          Inr (result\<lparr>errors := errors result @ [''Sezione .content non trovata'']\<rparr>, folder_dir)
        else
          (case replace_images_in_content content available_images dry_run
                  (path_name folder_path) of
             (new_content, chs) \<Rightarrow>
               (let result = result\<lparr>changes := chs, images_in_html := length chs\<rparr>;
                    images_with_files = length (filter exists chs);
                    result =
                      (if images_with_files \<noteq> length chs then
                         (let missing = filter (\<lambda>c. \<not> exists c) chs
                          in result\<lparr>errors := errors result @
                               [str_nat (length missing) @ '' immagini mancanti: '' @
                                repr_list (map new_url missing)]\<rparr>)
                       else result)
                in if \<not> dry_run \<and> chs \<noteq> [] then
                     Inr (result,
                          AList.update ''article.html''
                            (File (write_newlines os_linesep
                                     (slice_to html start @ new_content @ slice_from html end)))
                            folder_dir)
                   else Inr (result, folder_dir))))))"

text \<open>
  The loop of \<open>main\<close> over the folders found, without its printing: the results of the
  folders processed, with their entries afterwards, and the exception that stopped the
  run, if one did.
\<close>

fun main_loop ::
  "string \<Rightarrow> bool \<Rightarrow> (string list \<times> entries) list
     \<Rightarrow> (article_result \<times> entries) list \<times> error option" where
  "main_loop os_linesep dry_run [] = ([], None)"
| "main_loop os_linesep dry_run ((folder_path, folder_dir) # rest) =
     (case process_article os_linesep folder_path folder_dir dry_run of
        Inl e \<Rightarrow> ([], Some e)
      | Inr r \<Rightarrow> (case main_loop os_linesep dry_run rest of (rs, err) \<Rightarrow> (r # rs, err)))"

section \<open>Notions used to state the properties\<close>

text \<open>
  The matches of a scan lie one after the other inside the content, and the text of each
  group is the content between its two offsets.
\<close>

fun spans_ok :: "string \<Rightarrow> nat \<Rightarrow> img_match list \<Rightarrow> bool" where
  "spans_ok c pos [] = (pos \<le> length c)"
| "spans_ok c pos (m # ms) =
     (pos \<le> start1 m \<and> start1 m \<le> end1 m \<and> end1 m \<le> length c
      \<and> group1 m = take (end1 m - start1 m) (drop (start1 m) c)
      \<and> spans_ok c (end1 m) ms)"

text \<open>
  The content from \<open>pos\<close> on, with the span of the group of each match replaced by the text
  given for it.
\<close>

fun splice_groups :: "string \<Rightarrow> nat \<Rightarrow> img_match list \<Rightarrow> string list \<Rightarrow> string" where
  "splice_groups c pos (m # ms) (n # ns) =
     take (start1 m - pos) (drop pos c) @ n @ splice_groups c (end1 m) ms ns"
| "splice_groups c pos ms ns = drop pos c"

text \<open>The URL that a change record leaves in the text.\<close>

definition url_after :: "change \<Rightarrow> string" where
  "url_after ch = (if exists ch then new_url ch else old_url ch)"

text \<open>The change records of the matches, the first of them at 0-based position \<open>i\<close>.\<close>

fun expected_changes :: "string list \<Rightarrow> nat \<Rightarrow> img_match list \<Rightarrow> change list" where
  "expected_changes av i [] = []"
| "expected_changes av i (m # ms) =
     \<lparr>index = i + 1, old_url = group1 m, new_url = image_filename (i + 2),
      exists = (image_filename (i + 2) \<in> set av)\<rparr> # expected_changes av (i + 1) ms"

text \<open>
  The same replacement, described along the scan itself: the text of the group of each
  match found is replaced by the next of the texts given.
\<close>

function rescan :: "string \<Rightarrow> string list \<Rightarrow> string" where
  "rescan s ns =
     (if s = [] then []
      else (case img_match_at s of
              None \<Rightarrow> hd s # rescan (tl s) ns
            | Some (a, b, e) \<Rightarrow>
                (case ns of
                   [] \<Rightarrow> s
                 | n # ns' \<Rightarrow> take a s @ n @ dquote # rescan (drop e s) ns')))"
  by pat_completeness auto
termination
  by (relation "measure (\<lambda>(s, ns). length s)") 
    (auto simp: img_match_at_def Let_def split: option.splits if_splits list.splits)

declare rescan.simps [simp del]

text \<open>A text that the group \<open>([^"]+)\<close> can match as a whole.\<close>

definition url_text :: "string \<Rightarrow> bool" where
  "url_text n \<longleftrightarrow> n \<noteq> [] \<and> dquote \<notin> set n"

text \<open>
  The literal shape at position \<open>p\<close> of a content: \<open><img\<close>, white space, \<open>src="\<close>, a value
  \<open>url\<close> that is not empty and has no double quote, and the closing double quote.
\<close>

definition img_shape_at :: "string \<Rightarrow> nat \<Rightarrow> string \<Rightarrow> bool" where
  "img_shape_at content p url \<longleftrightarrow>
     (\<exists>ws rest. drop p content = ''<img'' @ ws @ ''src='' @ [dquote] @ url @ [dquote] @ rest
        \<and> ws \<noteq> [] \<and> (\<forall>c\<in>set ws. is_space c) \<and> url \<noteq> [] \<and> dquote \<notin> set url)"

text \<open>
  The place of a content section, in the words of the pattern: the opening tag, any text,
  \<open></div>\<close>, white space or none, \<open></body>\<close>; \<open>start\<close> and \<open>end\<close> are the offsets of the text in
  between.
\<close>

definition content_occurs :: "string \<Rightarrow> nat \<Rightarrow> nat \<Rightarrow> bool" where
  "content_occurs html start end \<longleftrightarrow>
     (\<exists>pre body ws rest.
        html = pre @ open_tag @ body @ ''</div>'' @ ws @ ''</body>'' @ rest
        \<and> (\<forall>c\<in>set ws. is_space c)
        \<and> start = length pre + length open_tag \<and> end = start + length body)"

text \<open>The summary error of a list of change records some of which found no file.\<close>

definition missing_error :: "change list \<Rightarrow> string" where
  "missing_error chs =
     str_nat (length (filter (\<lambda>c. \<not> exists c) chs)) @ '' immagini mancanti: '' @
     repr_list (map new_url (filter (\<lambda>c. \<not> exists c) chs))"

text \<open>
  The folders of one subdirectory that the scanner lists: its entries that are directories
  and have an entry, of any kind, named \<open>article.html\<close>.
\<close>

definition listed :: "string list \<Rightarrow> entries \<Rightarrow> string \<Rightarrow> string list set" where
  "listed base_path base subdir =
     {base_path @ [subdir, name] | name children es.
        map_of base subdir = Some (Dir children) \<and> (name, Dir es) \<in> set children
        \<and> ''article.html'' \<in> fst ` set es}"

text \<open>
  The folders of one subdirectory that qualify: its entries that are directories and have a
  file named \<open>article.html\<close>.
\<close>

definition qualifying :: "string list \<Rightarrow> entries \<Rightarrow> string \<Rightarrow> string list set" where
  "qualifying base_path base subdir =
     {base_path @ [subdir, name] | name children es body.
        map_of base subdir = Some (Dir children) \<and> (name, Dir es) \<in> set children
        \<and> (''article.html'', File body) \<in> set es}"

text \<open>
  The names of the files of a folder that start with \<open>image-\<close> and end with \<open>.webp\<close>, in the
  order of the folder.
\<close>

definition image_file_names :: "entries \<Rightarrow> string list" where
  "image_file_names folder_dir =
     filter (\<lambda>name. prefix ''image-'' name \<and> suffix ''.webp'' name)
       (map fst (filter (\<lambda>(name, e). \<not> is_dir e) folder_dir))"

section \<open>Example inputs\<close>

definition local_image :: string where
  \<open>local_image = ''<p><img src="image-2.webp"></p>''\<close>

definition attr_first_image :: string where
  \<open>attr_first_image = ''<img class="x" src="https://cdn.x/a.jpg">''\<close>

definition single_quoted_image :: string where
  \<open>single_quoted_image = [CHR ''<'', CHR ''i'', CHR ''m'', CHR ''g'', CHR '' '', CHR ''s'', CHR ''r'',
     CHR ''c'', CHR ''='', CHR 0x27] @ ''https://cdn.x/a.jpg'' @ [CHR 0x27, CHR ''>'']\<close>

definition mixed_images :: string where
  \<open>mixed_images = ''<img class="x" src="https://cdn.x/a.jpg"> <img src="https://cdn.x/b.jpg">''\<close>

definition two_images :: string where
  \<open>two_images = ''<img src="https://cdn.x/a.jpg"> <img src="https://cdn.x/b.jpg">''\<close>

definition one_image :: string where
  \<open>one_image = ''<img src="https://cdn.x/a.jpg">''\<close>

definition linked_image :: string where
  \<open>linked_image = ''<a href="https://cdn.x/a.jpg"><img src="https://cdn.x/a.jpg"></a>''\<close>

definition article_html :: string where
  \<open>article_html = ''<body><div class="content">'' @ two_images @ ''</div>'' @ [CHR 0x0A] @ ''</body>''\<close>

definition article_folder :: entries where
  "article_folder = [(''image-10.webp'', File []), (''article.html'', File article_html),
                     (''image-2.webp'', File [])]"

definition plain_html :: string where
  \<open>plain_html = ''<body><p>no images</p></body>''\<close>

definition plain_folder :: entries where
  "plain_folder = [(''article.html'', File plain_html)]"

definition article_html_after :: string where
  \<open>article_html_after =
     ''<body><div class="content"><img src="image-2.webp"> <img src="https://cdn.x/b.jpg"></div>''
     @ [CHR 0x0A] @ ''</body>''\<close>

definition base_tree :: entries where
  "base_tree =
     [(''feedback-friday'', Dir [(''z'', Dir [(''article.html'', File [])]),
                                 (''b'', Dir [(''article.html'', File []), (''image-2.webp'', File [])])]),
      (''replace_image_paths.py'', File []),
      (''articles'', Dir [(''k'', Dir [(''article.html'', File [])]),
                          (''c'', Dir [(''image-2.webp'', File [])]),
                          (''notes.txt'', File []),
                          (''a-b'', Dir [(''article.html'', File [])])])]"

definition base_with_file :: entries where
  "base_with_file =
     [(''articles'', File []),
      (''feedback-friday'', Dir [(''b'', Dir [(''article.html'', File [])])])]"

definition crlf_html :: string where
  \<open>crlf_html = ''<body>'' @ [char_cr, char_lf] @ ''<div class="content">'' @ one_image
     @ ''</div></body>''\<close>

definition crlf_folder :: entries where
  "crlf_folder = [(''article.html'', File crlf_html), (''image-2.webp'', File [])]"

definition crlf_html_after :: string where
  \<open>crlf_html_after = ''<body>'' @ [char_lf]
     @ ''<div class="content"><img src="image-2.webp"></div></body>''\<close>

definition bad_inventory_folder :: entries where
  "bad_inventory_folder = [(''article.html'', File plain_html), (''image-cover.webp'', File [])]"

definition folder_with_image_dir :: entries where
  "folder_with_image_dir = [(''image-3.webp'', Dir []), (''image-2.webp'', File [])]"

definition folder_with_unnumbered_dir :: entries where
  "folder_with_unnumbered_dir = [(''image-old.webp'', Dir []), (''image-2.webp'', File [])]"

definition base_with_article_dir :: entries where
  "base_with_article_dir =
     [(''articles'', Dir [(''x'', Dir [(''article.html'', Dir [])])])]"

definition swallowed_tag :: string where
  \<open>swallowed_tag = ''<img src="a.jpg> '' @ attr_first_image\<close>

definition quoted_single_tag :: string where
  \<open>quoted_single_tag = ''<img src="see '' @ single_quoted_image @ ''">''\<close>

section \<open>The pattern and the scan\<close>

lemma img_match_at_pos: "img_match_at s = Some (a, b, e) \<Longrightarrow> 0 < e"
  by (auto simp: img_match_at_def Let_def split: option.splits if_splits list.splits)

lemma is_space_not_quote: "is_space c \<Longrightarrow> c \<noteq> dquote"
  by (auto simp: is_space_def dquote_def)

lemma is_space_not_s: "\<not> is_space (CHR ''s'')"
  by (simp add: is_space_def)

lemma tag_prefix_intro:
  assumes "ws \<noteq> []" "\<forall>c\<in>set ws. is_space c"
  shows "tag_prefix (''<img'' @ ws @ ''src='' @ [dquote] @ q) = Some q"
proof -
  have tw: "takeWhile is_space (ws @ ''src='' @ [dquote] @ q) = ws"
    using assms(2) by (simp add: takeWhile_append2 is_space_not_s)
  have dw: "dropWhile is_space (ws @ ''src='' @ [dquote] @ q) = ''src='' @ [dquote] @ q"
    using assms(2) by (simp add: dropWhile_append2 is_space_not_s)
  show ?thesis
    using assms(1) tw dw by (simp add: tag_prefix_def Let_def)
qed

lemma tag_prefix_elim:
  assumes "tag_prefix s = Some q"
  shows "\<exists>ws. s = ''<img'' @ ws @ ''src='' @ [dquote] @ q \<and> ws \<noteq> [] \<and> (\<forall>c\<in>set ws. is_space c)"
proof -
  from assms have p1: "prefix ''<img'' s"
    by (simp add: tag_prefix_def split: if_splits)
  then obtain r where s: "s = ''<img'' @ r"
    by (auto simp: prefix_def)
  from assms s have ne: "takeWhile is_space r \<noteq> []"
    and p2: "prefix (''src='' @ [dquote]) (dropWhile is_space r)"
    and q: "q = drop 5 (dropWhile is_space r)"
    by (auto simp: tag_prefix_def Let_def split: if_splits)
  from p2 q have dw: "dropWhile is_space r = ''src='' @ [dquote] @ q"
    by (auto simp: prefix_def)
  have "r = takeWhile is_space r @ dropWhile is_space r"
    by simp
  with dw have "r = takeWhile is_space r @ ''src='' @ [dquote] @ q"
    by simp
  with s ne show ?thesis
    by (metis set_takeWhileD)
qed

lemma img_match_at_intro:
  assumes "ws \<noteq> []" "\<forall>c\<in>set ws. is_space c" "url \<noteq> []" "dquote \<notin> set url"
  shows "img_match_at (''<img'' @ ws @ ''src='' @ [dquote] @ url @ [dquote] @ rest)
           = Some (9 + length ws, 9 + length ws + length url, 9 + length ws + length url + 1)"
proof -
  have tp: "tag_prefix (''<img'' @ ws @ ''src='' @ [dquote] @ (url @ [dquote] @ rest))
              = Some (url @ [dquote] @ rest)"
    using assms(1,2) by (rule tag_prefix_intro)
  have nq: "\<forall>c\<in>set url. not_quote c"
    using assms(4) by (auto simp: not_quote_def)
  have tw: "takeWhile not_quote (url @ [dquote] @ rest) = url"
    using nq by (simp add: takeWhile_append2 not_quote_def)
  have dw: "dropWhile not_quote (url @ [dquote] @ rest) = dquote # rest"
    using nq by (simp add: dropWhile_append2 not_quote_def)
  show ?thesis
    using tp tw dw assms(3) by (simp add: img_match_at_def Let_def)
qed

lemma img_match_at_elim:
  assumes "img_match_at s = Some (a, b, e)"
  shows "\<exists>ws url rest. s = ''<img'' @ ws @ ''src='' @ [dquote] @ url @ [dquote] @ rest
           \<and> ws \<noteq> [] \<and> (\<forall>c\<in>set ws. is_space c) \<and> url \<noteq> [] \<and> dquote \<notin> set url
           \<and> a = 9 + length ws \<and> b = a + length url \<and> e = b + 1"
proof -
  from assms obtain q where tp: "tag_prefix s = Some q"
    by (auto simp: img_match_at_def split: option.splits)
  from assms tp have ne: "takeWhile not_quote q \<noteq> []"
    by (auto simp: img_match_at_def Let_def split: if_splits)
  from assms tp ne have dne: "dropWhile not_quote q \<noteq> []"
    by (auto simp only: img_match_at_def Let_def option.case if_False list.case split: list.splits)
  from assms tp ne have a: "a = length s - length q"
    and b: "b = a + length (takeWhile not_quote q)" and e: "e = b + 1"
    by (auto simp: img_match_at_def Let_def split: if_splits list.splits)
  from tag_prefix_elim [OF tp] obtain ws where
    s: "s = ''<img'' @ ws @ ''src='' @ [dquote] @ q" and ws: "ws \<noteq> []" "\<forall>c\<in>set ws. is_space c"
    by blast
  define url where "url = takeWhile not_quote q"
  from dne obtain rest where dw: "dropWhile not_quote q = dquote # rest"
    by (metis hd_dropWhile list.exhaust_sel not_quote_def)
  have q: "q = url @ [dquote] @ rest"
    using takeWhile_dropWhile_id [of not_quote q] dw by (simp add: url_def)
  have nq: "dquote \<notin> set url"
    unfolding url_def using set_takeWhileD [of dquote not_quote q] by (auto simp: not_quote_def)
  have a': "a = 9 + length ws"
    using a s by simp
  show ?thesis
    using s q ws ne nq a' b e unfolding url_def [symmetric] by auto
qed

lemma finditer_from_Nil: "finditer_from pos [] = []"
  by (simp add: finditer_from.simps)

lemma img_match_at_Nil: "img_match_at [] = None"
  by (simp add: img_match_at_def tag_prefix_def)

lemma finditer_from_None:
  "img_match_at (x # xs) = None \<Longrightarrow> finditer_from pos (x # xs) = finditer_from (pos + 1) xs"
  by (subst finditer_from.simps) simp

lemma finditer_from_Some:
  "img_match_at s = Some (a, b, e) \<Longrightarrow>
     finditer_from pos s =
       \<lparr>start0 = pos, end0 = pos + e, start1 = pos + a, end1 = pos + b,
        group1 = take (b - a) (drop a s)\<rparr> # finditer_from (pos + e) (drop e s)"
  by (subst finditer_from.simps) (auto simp: img_match_at_Nil)

lemma spans_ok_earlier: "spans_ok c q ms \<Longrightarrow> p \<le> q \<Longrightarrow> spans_ok c p ms"
  by (cases ms) auto

lemma finditer_from_spans:
  "pos = length pre \<Longrightarrow> spans_ok (pre @ s) pos (finditer_from pos s)"
proof (induction pos s arbitrary: pre rule: finditer_from.induct)
  case (1 pos s)
  show ?case
  proof (cases "s = []")
    case True
    then show ?thesis using "1.prems" by (simp add: finditer_from_Nil)
  next
    case ne: False
    show ?thesis
    proof (cases "img_match_at s")
      case None
      from ne obtain x xs where s: "s = x # xs" by (cases s) auto
      have "spans_ok ((pre @ [x]) @ xs) (pos + 1) (finditer_from (pos + 1) xs)"
        using "1.IH"(1) [OF ne None, of "pre @ [x]"] "1.prems" s by simp
      then have "spans_ok (pre @ s) pos (finditer_from (pos + 1) xs)"
        using s spans_ok_earlier [of _ "pos + 1" _ pos] by simp
      then show ?thesis
        using None s by (simp add: finditer_from_None)
    next
      case (Some t)
      obtain a b e where t: "t = (a, b, e)" by (cases t) auto
      note m = Some [unfolded t]
      from img_match_at_elim [OF m] obtain ws url rest where
        s: "s = ''<img'' @ ws @ ''src='' @ [dquote] @ url @ [dquote] @ rest"
        and a: "a = 9 + length ws" and b: "b = a + length url" and e: "e = b + 1"
        by blast
      have le: "e \<le> length s" using s a b e by simp
      have len: "pos + e = length (pre @ take e s)"
        using le "1.prems" by simp
      have "spans_ok ((pre @ take e s) @ drop e s) (pos + e) (finditer_from (pos + e) (drop e s))"
        using "1.IH"(2) [OF ne m refl refl len] .
      then have "spans_ok (pre @ s) (pos + e) (finditer_from (pos + e) (drop e s))"
        by simp
      then have *: "spans_ok (pre @ s) (pos + b) (finditer_from (pos + e) (drop e s))"
        using e spans_ok_earlier [of _ "pos + e" _ "pos + b"] by simp
      have g: "take (b - a) (drop a s) = take (b - a) (drop (pos + a) (pre @ s))"
        using "1.prems" by simp
      have "spans_ok (pre @ s) pos
              (\<lparr>start0 = pos, end0 = pos + e, start1 = pos + a, end1 = pos + b,
                group1 = take (b - a) (drop a s)\<rparr> # finditer_from (pos + e) (drop e s))"
        using * le a b e g "1.prems" by simp
      then show ?thesis
        by (simp only: finditer_from_Some [OF m])
    qed
  qed
qed

lemma finditer_spans: "spans_ok c 0 (finditer c)"
  using finditer_from_spans [of 0 "[]" c] by (simp add: finditer_def)

lemma splice_groups_own:
  "spans_ok c pos ms \<Longrightarrow> splice_groups c pos ms (map group1 ms) = drop pos c"
proof (induction ms arbitrary: pos)
  case Nil
  then show ?case by simp
next
  case (Cons m ms)
  from Cons.prems have le: "pos \<le> start1 m" "start1 m \<le> end1 m" "end1 m \<le> length c"
    and g: "group1 m = take (end1 m - start1 m) (drop (start1 m) c)"
    and rest: "spans_ok c (end1 m) ms"
    by simp_all
  have 1: "drop pos c = take (start1 m - pos) (drop pos c) @ drop (start1 m) c"
    using le by (metis append_take_drop_id drop_drop le_add_diff_inverse2)
  have 2: "drop (start1 m) c = take (end1 m - start1 m) (drop (start1 m) c) @ drop (end1 m) c"
    using le by (metis append_take_drop_id drop_drop le_add_diff_inverse2)
  show ?case
    using Cons.IH [OF rest] g 1 2 by simp
qed

lemma rewrite_loop_result:
  assumes "spans_ok c p ms" and "new_content = W @ drop p c" and "int (length W) = int p + offset"
  shows "rewrite_loop av i ms (new_content, offset, acc) =
           (W @ splice_groups c p ms (map url_after (expected_changes av i ms)),
            offset + (\<Sum>ch\<leftarrow>expected_changes av i ms.
                int (length (url_after ch)) - int (length (old_url ch))),
            acc @ expected_changes av i ms)"
  using assms
proof (induction ms arbitrary: i p W offset acc new_content)
  case Nil
  then show ?case by simp
next
  case (Cons m ms)
  from Cons.prems(1) have le: "p \<le> start1 m" "start1 m \<le> end1 m" "end1 m \<le> length c"
    and g: "group1 m = take (end1 m - start1 m) (drop (start1 m) c)"
    and rest: "spans_ok c (end1 m) ms"
    by simp_all
  have glen: "length (group1 m) = end1 m - start1 m"
    using g le by simp
  define gap where "gap = take (start1 m - p) (drop p c)"
  have gaplen: "length gap = start1 m - p"
    using le by (simp add: gap_def)
  have d1: "drop p c = gap @ drop (start1 m) c"
    unfolding gap_def using le by (metis append_take_drop_id drop_drop le_add_diff_inverse2)
  have d2: "drop (start1 m) c = group1 m @ drop (end1 m) c"
    unfolding g using le by (metis append_take_drop_id drop_drop le_add_diff_inverse2)
  have nc: "new_content = (W @ gap) @ group1 m @ drop (end1 m) c"
    using Cons.prems(2) d1 d2 by simp
  have wg: "int (length (W @ gap)) = int (start1 m) + offset"
    using Cons.prems(3) gaplen le by simp
  show ?case
  proof (cases "image_filename (i + 2) \<in> set av")
    case True
    let ?nu = "image_filename (i + 2)"
    have st: "slice_to new_content (int (start1 m) + offset) = W @ gap"
      using wg unfolding nc slice_to_def
      by (smt (verit) append_eq_conv_conj nat_int of_nat_0_le_iff)
    have "int (length ((W @ gap) @ group1 m)) = int (end1 m) + offset"
      using wg glen le by simp
    then have en: "slice_from new_content (int (end1 m) + offset) = drop (end1 m) c"
      unfolding nc slice_from_def
      by (smt (verit) append.assoc append_eq_conv_conj nat_int of_nat_0_le_iff)
    have w': "int (length (W @ gap @ ?nu))
                = int (end1 m) + (offset + (int (length ?nu) - int (length (group1 m))))"
      using wg glen le by simp
    have nc': "W @ gap @ ?nu @ drop (end1 m) c = (W @ gap @ ?nu) @ drop (end1 m) c"
      by simp
    have step: "rewrite_loop av i (m # ms) (new_content, offset, acc) =
        rewrite_loop av (i + 1) ms
          (W @ gap @ ?nu @ drop (end1 m) c,
           offset + (int (length ?nu) - int (length (group1 m))),
           acc @ [\<lparr>index = i + 1, old_url = group1 m, new_url = ?nu, exists = True\<rparr>])"
      using True st en by (simp add: Let_def)
    show ?thesis
      unfolding step
      using Cons.IH [where i = "i + 1" and acc =
        "acc @ [\<lparr>index = i + 1, old_url = group1 m, new_url = ?nu, exists = True\<rparr>]",
        OF rest nc' w'] True
      by (simp add: url_after_def gap_def)
  next
    case False
    have w': "int (length (W @ gap @ group1 m)) = int (end1 m) + offset"
      using wg glen le by simp
    have nc': "new_content = (W @ gap @ group1 m) @ drop (end1 m) c"
      using nc by simp
    from Cons.IH [where i = "i + 1" and acc =
        "acc @ [\<lparr>index = i + 1, old_url = group1 m, new_url = image_filename (i + 2),
                     exists = False\<rparr>]", OF rest nc' w']
    show ?thesis
      using False by (simp add: Let_def url_after_def gap_def)
  qed
qed

lemma rescan_Nil: "rescan [] ns = []"
  by (simp add: rescan.simps)

lemma rescan_None: "img_match_at (x # xs) = None \<Longrightarrow> rescan (x # xs) ns = x # rescan xs ns"
  by (subst rescan.simps) simp

lemma rescan_Some_Nil: "img_match_at s = Some (a, b, e) \<Longrightarrow> rescan s [] = s"
  by (subst rescan.simps) (auto simp: img_match_at_Nil)

lemma rescan_Some_Cons:
  "img_match_at s = Some (a, b, e) \<Longrightarrow>
     rescan s (n # ns) = take a s @ n @ dquote # rescan (drop e s) ns"
  by (subst rescan.simps) (auto simp: img_match_at_Nil)

lemma splice_groups_shift:
  assumes "spans_ok c (Suc pos) ms" "pos < length c"
  shows "splice_groups c pos ms ns = c ! pos # splice_groups c (Suc pos) ms ns"
proof (cases ms)
  case Nil
  then show ?thesis using assms by (simp add: Cons_nth_drop_Suc)
next
  case (Cons m ms')
  show ?thesis
  proof (cases ns)
    case Nil
    then show ?thesis using Cons assms by (simp add: Cons_nth_drop_Suc)
  next
    case (Cons n ns')
    from assms \<open>ms = m # ms'\<close> have "Suc pos \<le> start1 m" by simp
    then obtain k where k: "start1 m - pos = Suc k" "start1 m - Suc pos = k"
      by (metis Suc_diff_le diff_Suc_Suc)
    have "drop pos c = c ! pos # drop (Suc pos) c"
      using assms(2) by (simp add: Cons_nth_drop_Suc)
    then show ?thesis
      using Cons \<open>ms = m # ms'\<close> k by simp
  qed
qed

lemma splice_groups_rescan:
  "pos = length pre \<Longrightarrow> splice_groups (pre @ s) pos (finditer_from pos s) ns = rescan s ns"
proof (induction pos s arbitrary: pre ns rule: finditer_from.induct)
  case (1 pos s)
  show ?case
  proof (cases "s = []")
    case True
    then show ?thesis using "1.prems" by (simp add: finditer_from_Nil rescan_Nil)
  next
    case ne: False
    show ?thesis
    proof (cases "img_match_at s")
      case None
      from ne obtain x xs where s: "s = x # xs" by (cases s) auto
      have ih: "splice_groups ((pre @ [x]) @ xs) (pos + 1) (finditer_from (pos + 1) xs) ns
                  = rescan xs ns"
        using "1.IH"(1) [OF ne None, of "pre @ [x]" ns] "1.prems" s by simp
      have sp: "spans_ok ((pre @ [x]) @ xs) (pos + 1) (finditer_from (pos + 1) xs)"
        using finditer_from_spans [of "pos + 1" "pre @ [x]" xs] "1.prems" by simp
      have "splice_groups (pre @ s) pos (finditer_from (pos + 1) xs) ns
              = (pre @ s) ! pos # splice_groups (pre @ s) (Suc pos) (finditer_from (pos + 1) xs) ns"
        using splice_groups_shift [of "pre @ s" pos "finditer_from (pos + 1) xs" ns] sp s "1.prems"
        by simp
      then show ?thesis
        using ih None s "1.prems" by (simp add: finditer_from_None rescan_None)
    next
      case (Some t)
      obtain a b e where t: "t = (a, b, e)" by (cases t) auto
      note m = Some [unfolded t]
      from img_match_at_elim [OF m] obtain ws url rest where
        s: "s = ''<img'' @ ws @ ''src='' @ [dquote] @ url @ [dquote] @ rest"
        and a: "a = 9 + length ws" and b: "b = a + length url" and e: "e = b + 1"
        by blast
      have le: "e \<le> length s" using s a b e by simp
      have sb: "s ! b = dquote"
        using s a b by (simp add: nth_append)
      show ?thesis
      proof (cases ns)
        case Nil
        then show ?thesis
          using "1.prems" by (simp add: finditer_from_Some [OF m] rescan_Some_Nil [OF m])
      next
        case (Cons n ns')
        have len: "pos + e = length (pre @ take e s)"
          using le "1.prems" by simp
        have ih: "splice_groups (pre @ s) (pos + e) (finditer_from (pos + e) (drop e s)) ns'
                    = rescan (drop e s) ns'"
          using "1.IH"(2) [OF ne m refl refl len, of ns'] by simp
        have sp: "spans_ok (pre @ s) (pos + e) (finditer_from (pos + e) (drop e s))"
          using finditer_from_spans [OF len, of "drop e s"] by simp
        have sh: "splice_groups (pre @ s) (pos + b) (finditer_from (pos + e) (drop e s)) ns'
                = dquote # splice_groups (pre @ s) (pos + e) (finditer_from (pos + e) (drop e s)) ns'"
          using splice_groups_shift [of "pre @ s" "pos + b" "finditer_from (pos + e) (drop e s)" ns']
            sp e le sb "1.prems" by (simp add: nth_append)
        show ?thesis
          using ih sh "1.prems" Cons
          by (simp add: finditer_from_Some [OF m] rescan_Some_Cons [OF m])
      qed
    qed
  qed
qed

lemma img_match_at_parts:
  assumes "img_match_at s = Some (a, b, e)"
  obtains ws url rest where
    "s = (''<img'' @ ws @ ''src='' @ [dquote]) @ url @ dquote # rest"
    "ws \<noteq> []" "\<forall>c\<in>set ws. is_space c" "url \<noteq> []" "dquote \<notin> set url"
    "a = 9 + length ws" "b = a + length url" "e = b + 1"
    "take a s = ''<img'' @ ws @ ''src='' @ [dquote]"
    "take (b - a) (drop a s) = url" "drop e s = rest"
proof -
  from img_match_at_elim [OF assms] obtain ws url rest where
    s: "s = ''<img'' @ ws @ ''src='' @ [dquote] @ url @ [dquote] @ rest"
    and w: "ws \<noteq> []" "\<forall>c\<in>set ws. is_space c" "url \<noteq> []" "dquote \<notin> set url"
    and a: "a = 9 + length ws" and b: "b = a + length url" and e: "e = b + 1"
    by blast
  define P where "P = ''<img'' @ ws @ ''src='' @ [dquote]"
  have lp: "length P = a" by (simp add: P_def a)
  have s': "s = P @ url @ dquote # rest" by (simp add: P_def s)
  have 1: "take a s = P" using lp s' by simp
  have 2: "take (b - a) (drop a s) = url" using lp s' b by simp
  have "s = (P @ url @ [dquote]) @ rest" "length (P @ url @ [dquote]) = e"
    using s' lp b e by simp_all
  then have 3: "drop e s = rest" by (metis append_eq_conv_conj)
  show thesis
    using that [of ws url rest] s' w a b e 1 2 3 unfolding P_def by blast
qed

lemma takeWhile_to_quote: "dquote \<notin> set u \<Longrightarrow> takeWhile not_quote (u @ dquote # v) = u"
  by (induction u) (auto simp: not_quote_def)

lemma dropWhile_to_quote: "dquote \<notin> set u \<Longrightarrow> dropWhile not_quote (u @ dquote # v) = dquote # v"
  by (induction u) (auto simp: not_quote_def)

lemma tag_seg_no_quote: "\<forall>c\<in>set ws. is_space c \<Longrightarrow> dquote \<notin> set (''<img'' @ ws @ ''src='')"
  using is_space_not_quote by (auto simp: dquote_def)

lemma tag_prefix_quote_split:
  "tag_prefix t = Some q \<longleftrightarrow>
     (\<exists>ws. takeWhile not_quote t = ''<img'' @ ws @ ''src='' \<and> ws \<noteq> [] \<and> (\<forall>c\<in>set ws. is_space c))
     \<and> dropWhile not_quote t = dquote # q"
proof
  assume "tag_prefix t = Some q"
  from tag_prefix_elim [OF this] obtain ws where
    t: "t = (''<img'' @ ws @ ''src='') @ [dquote] @ q" and ws: "ws \<noteq> []" "\<forall>c\<in>set ws. is_space c"
    by auto
  have nq: "\<forall>c\<in>set (''<img'' @ ws @ ''src=''). not_quote c"
    using ws(2) is_space_not_quote by (auto simp: not_quote_def dquote_def)
  have "takeWhile not_quote t = ''<img'' @ ws @ ''src=''"
    unfolding t using nq by (subst takeWhile_append2) (auto simp: not_quote_def)
  moreover have "dropWhile not_quote t = dquote # q"
    unfolding t using nq by (subst dropWhile_append2) (auto simp: not_quote_def)
  ultimately show "(\<exists>ws. takeWhile not_quote t = ''<img'' @ ws @ ''src='' \<and> ws \<noteq> [] \<and> (\<forall>c\<in>set ws. is_space c))
     \<and> dropWhile not_quote t = dquote # q"
    using ws by blast
next
  assume r: "(\<exists>ws. takeWhile not_quote t = ''<img'' @ ws @ ''src='' \<and> ws \<noteq> [] \<and> (\<forall>c\<in>set ws. is_space c))
     \<and> dropWhile not_quote t = dquote # q"
  then obtain ws where tw: "takeWhile not_quote t = ''<img'' @ ws @ ''src=''"
    and ws: "ws \<noteq> []" "\<forall>c\<in>set ws. is_space c" and dw: "dropWhile not_quote t = dquote # q"
    by blast
  have "t = takeWhile not_quote t @ dropWhile not_quote t" by simp
  then have "t = ''<img'' @ ws @ ''src='' @ [dquote] @ q"
    using tw dw by simp
  then show "tag_prefix t = Some q"
    using tag_prefix_intro [OF ws, of q] by simp
qed

lemma img_match_at_quote_split:
  "img_match_at t = None \<longleftrightarrow>
     \<not> ((\<exists>ws. takeWhile not_quote t = ''<img'' @ ws @ ''src='' \<and> ws \<noteq> [] \<and> (\<forall>c\<in>set ws. is_space c))
        \<and> (\<exists>q. dropWhile not_quote t = dquote # q \<and> takeWhile not_quote q \<noteq> []
                 \<and> dquote \<in> set q))"
proof (cases "tag_prefix t")
  case None
  then have "\<not> ((\<exists>ws. takeWhile not_quote t = ''<img'' @ ws @ ''src='' \<and> ws \<noteq> [] \<and> (\<forall>c\<in>set ws. is_space c))
     \<and> (\<exists>q. dropWhile not_quote t = dquote # q))"
    using tag_prefix_quote_split [of t] by (metis option.distinct(1))
  then show ?thesis
    using None by (auto simp: img_match_at_def)
next
  case (Some q)
  from Some [unfolded tag_prefix_quote_split] have
    l: "\<exists>ws. takeWhile not_quote t = ''<img'' @ ws @ ''src='' \<and> ws \<noteq> [] \<and> (\<forall>c\<in>set ws. is_space c)"
    and dw: "dropWhile not_quote t = dquote # q"
    by blast+
  have dn: "dropWhile not_quote q = [] \<longleftrightarrow> dquote \<notin> set q"
    by (auto simp: dropWhile_eq_Nil_conv not_quote_def)
  have "img_match_at t = None \<longleftrightarrow> takeWhile not_quote q = [] \<or> dropWhile not_quote q = []"
    using Some by (cases "dropWhile not_quote q")
      (simp_all add: img_match_at_def Let_def del: dropWhile_eq_Nil_conv)
  then have "img_match_at t = None \<longleftrightarrow> takeWhile not_quote q = [] \<or> dquote \<notin> set q"
    using dn by simp
  then show ?thesis
    using l dw by auto
qed

lemma img_match_at_not_lt: "c \<noteq> CHR ''<'' \<Longrightarrow> img_match_at (c # t) = None"
  by (simp add: img_match_at_def tag_prefix_def)

lemma rescan_no_lt: "\<forall>c\<in>set u. c \<noteq> CHR ''<'' \<Longrightarrow> rescan (u @ t) ns = u @ rescan t ns"
  by (induction u) (simp_all add: rescan_None img_match_at_not_lt)

lemma rescan_takeWhile: "takeWhile not_quote (rescan s ns) = takeWhile not_quote s"
proof (induction s ns rule: rescan.induct)
  case (1 s ns)
  show ?case
  proof (cases "s = []")
    case True
    then show ?thesis by (simp add: rescan_Nil)
  next
    case ne: False
    show ?thesis
    proof (cases "img_match_at s")
      case None
      from ne obtain x xs where s: "s = x # xs" by (cases s) auto
      show ?thesis
        using "1.IH"(1) [OF ne None] None s by (simp add: rescan_None)
    next
      case (Some t)
      obtain a b e where t: "t = (a, b, e)" by (cases t) auto
      note m = Some [unfolded t]
      from m obtain ws url rest where
        s0: "s = (''<img'' @ ws @ ''src='' @ [dquote]) @ url @ dquote # rest"
        and ws: "\<forall>c\<in>set ws. is_space c"
        and ta0: "take a s = ''<img'' @ ws @ ''src='' @ [dquote]"
        by (rule img_match_at_parts)
      have s: "s = (''<img'' @ ws @ ''src='') @ [dquote] @ url @ [dquote] @ rest"
        using s0 by simp
      have nq: "\<forall>c\<in>set (''<img'' @ ws @ ''src=''). not_quote c"
        using ws is_space_not_quote by (auto simp: not_quote_def dquote_def)
      have ta: "take a s = (''<img'' @ ws @ ''src='') @ [dquote]"
        using ta0 by simp
      have 1: "takeWhile not_quote s = ''<img'' @ ws @ ''src=''"
        by (subst s, subst takeWhile_append2) (use nq in \<open>auto simp: not_quote_def\<close>)
      show ?thesis
      proof (cases ns)
        case Nil
        then show ?thesis by (simp add: rescan_Some_Nil [OF m])
      next
        case (Cons n ns')
        have "takeWhile not_quote ((''<img'' @ ws @ ''src='') @ dquote # n @ dquote # rescan (drop e s) ns')
                = ''<img'' @ ws @ ''src=''"
          using tag_seg_no_quote [OF ws] by (rule takeWhile_to_quote)
        then show ?thesis
          unfolding Cons rescan_Some_Cons [OF m] ta 1 by simp
      qed
    qed
  qed
qed

lemma rescan_has_quote: "dquote \<in> set (rescan s ns) \<longleftrightarrow> dquote \<in> set s"
proof (induction s ns rule: rescan.induct)
  case (1 s ns)
  show ?case
  proof (cases "s = []")
    case True
    then show ?thesis by (simp add: rescan_Nil)
  next
    case ne: False
    show ?thesis
    proof (cases "img_match_at s")
      case None
      from ne obtain x xs where s: "s = x # xs" by (cases s) auto
      show ?thesis
        using "1.IH"(1) [OF ne None] None s by (simp add: rescan_None)
    next
      case (Some t)
      obtain a b e where t: "t = (a, b, e)" by (cases t) auto
      note m = Some [unfolded t]
      from img_match_at_elim [OF m] have "dquote \<in> set s"
        by auto
      then show ?thesis
        by (cases ns) (simp_all add: rescan_Some_Nil [OF m] rescan_Some_Cons [OF m])
    qed
  qed
qed

lemma is_space_not_lt: "is_space c \<Longrightarrow> c \<noteq> CHR ''<''"
  by (auto simp: is_space_def)

lemma img_match_at_tag_None: "tag_prefix t = None \<Longrightarrow> img_match_at t = None"
  by (simp add: img_match_at_def)

lemma img_match_at_tag_Some:
  "tag_prefix t = Some q \<Longrightarrow>
     img_match_at t = None \<longleftrightarrow> takeWhile not_quote q = [] \<or> dquote \<notin> set q"
proof -
  assume tp: "tag_prefix t = Some q"
  have dn: "dropWhile not_quote q = [] \<longleftrightarrow> dquote \<notin> set q"
    by (auto simp: dropWhile_eq_Nil_conv not_quote_def)
  have "img_match_at t = None \<longleftrightarrow> takeWhile not_quote q = [] \<or> dropWhile not_quote q = []"
    using tp by (cases "dropWhile not_quote q")
      (simp_all add: img_match_at_def Let_def del: dropWhile_eq_Nil_conv)
  then show ?thesis using dn by simp
qed

lemma img_match_at_rescan_None:
  assumes "img_match_at (x # xs) = None"
  shows "img_match_at (x # rescan xs ns) = None"
proof (cases "tag_prefix (x # xs)")
  case None
  have tw: "takeWhile not_quote (x # rescan xs ns) = takeWhile not_quote (x # xs)"
    by (simp add: rescan_takeWhile)
  have hq: "dquote \<in> set (x # rescan xs ns) \<longleftrightarrow> dquote \<in> set (x # xs)"
    by (simp add: rescan_has_quote)
  have "tag_prefix (x # rescan xs ns) = None"
  proof (rule ccontr)
    assume "tag_prefix (x # rescan xs ns) \<noteq> None"
    then obtain q' where q': "tag_prefix (x # rescan xs ns) = Some q'" by auto
    from q' [unfolded tag_prefix_quote_split] have
      seg: "\<exists>ws. takeWhile not_quote (x # xs) = ''<img'' @ ws @ ''src='' \<and> ws \<noteq> [] \<and> (\<forall>c\<in>set ws. is_space c)"
      and dw: "dropWhile not_quote (x # rescan xs ns) = dquote # q'"
      unfolding tw by blast+
    from dw have "dquote \<in> set (x # rescan xs ns)"
      by (metis list.set_intros(1) set_dropWhileD)
    with hq have "dquote \<in> set (x # xs)" by simp
    then have "dropWhile not_quote (x # xs) \<noteq> []"
      by (auto simp: dropWhile_eq_Nil_conv not_quote_def)
    then obtain q where "dropWhile not_quote (x # xs) = dquote # q"
      by (metis hd_dropWhile list.exhaust_sel not_quote_def)
    with seg have "tag_prefix (x # xs) = Some q"
      unfolding tag_prefix_quote_split by blast
    with None show False by simp
  qed
  then show ?thesis by (rule img_match_at_tag_None)
next
  case (Some q)
  from tag_prefix_elim [OF Some] obtain ws where
    s: "x # xs = ''<img'' @ ws @ ''src='' @ [dquote] @ q" and ws: "ws \<noteq> []" "\<forall>c\<in>set ws. is_space c"
    by blast
  from s have x: "x = CHR ''<''" and xs: "xs = (''img'' @ ws @ ''src='' @ [dquote]) @ q"
    by simp_all
  have "\<forall>c\<in>set (''img'' @ ws @ ''src='' @ [dquote]). c \<noteq> CHR ''<''"
    using ws(2) is_space_not_lt by (auto simp: dquote_def)
  then have "rescan xs ns = (''img'' @ ws @ ''src='' @ [dquote]) @ rescan q ns"
    unfolding xs by (rule rescan_no_lt)
  then have "x # rescan xs ns = ''<img'' @ ws @ ''src='' @ [dquote] @ rescan q ns"
    using x by simp
  then have tp: "tag_prefix (x # rescan xs ns) = Some (rescan q ns)"
    using tag_prefix_intro [OF ws, of "rescan q ns"] by simp
  from assms Some have "takeWhile not_quote q = [] \<or> dquote \<notin> set q"
    by (simp add: img_match_at_tag_Some)
  then have "takeWhile not_quote (rescan q ns) = [] \<or> dquote \<notin> set (rescan q ns)"
    by (simp add: rescan_takeWhile rescan_has_quote)
  then show ?thesis
    using tp by (simp add: img_match_at_tag_Some)
qed

lemma finditer_from_rescan:
  "length ns = length (finditer_from pos s) \<Longrightarrow> \<forall>n\<in>set ns. url_text n \<Longrightarrow>
     map group1 (finditer_from p (rescan s ns)) = ns"
proof (induction pos s arbitrary: ns p rule: finditer_from.induct)
  case (1 pos s)
  show ?case
  proof (cases "s = []")
    case True
    then show ?thesis using "1.prems" by (simp add: finditer_from_Nil rescan_Nil)
  next
    case ne: False
    show ?thesis
    proof (cases "img_match_at s")
      case None
      from ne obtain x xs where s: "s = x # xs" by (cases s) auto
      have len: "length ns = length (finditer_from (pos + 1) (tl s))"
        using "1.prems"(1) None s by (simp add: finditer_from_None)
      have "map group1 (finditer_from (p + 1) (rescan (tl s) ns)) = ns"
        using "1.IH"(1) [OF ne None len "1.prems"(2)] .
      moreover have "img_match_at (x # rescan xs ns) = None"
        using None s img_match_at_rescan_None by simp
      ultimately show ?thesis
        using None s by (simp add: rescan_None finditer_from_None)
    next
      case (Some t)
      obtain a b e where t: "t = (a, b, e)" by (cases t) auto
      note m = Some [unfolded t]
      from "1.prems"(1) obtain n ns' where ns: "ns = n # ns'"
        and len: "length ns' = length (finditer_from (pos + e) (drop e s))"
        by (cases ns) (auto simp: finditer_from_Some [OF m])
      from "1.prems"(2) ns have n: "n \<noteq> []" "dquote \<notin> set n" and ns': "\<forall>n\<in>set ns'. url_text n"
        by (simp_all add: url_text_def)
      from m obtain ws url rest where
        ws: "ws \<noteq> []" "\<forall>c\<in>set ws. is_space c"
        and a: "a = 9 + length ws"
        and ta: "take a s = ''<img'' @ ws @ ''src='' @ [dquote]"
        by (rule img_match_at_parts)
      define R where "R = rescan (drop e s) ns'"
      define P where "P = ''<img'' @ ws @ ''src='' @ [dquote]"
      have lp: "length P = a" by (simp add: P_def a)
      have rs: "rescan s ns = P @ n @ dquote # R"
        unfolding ns rescan_Some_Cons [OF m] ta R_def P_def by simp
      have "img_match_at (''<img'' @ ws @ ''src='' @ [dquote] @ n @ [dquote] @ R)
              = Some (9 + length ws, 9 + length ws + length n, 9 + length ws + length n + 1)"
        using ws n by (rule img_match_at_intro)
      then have m': "img_match_at (rescan s ns) = Some (a, a + length n, a + length n + 1)"
        unfolding rs P_def a by simp
      have g: "take (a + length n - a) (drop a (rescan s ns)) = n"
        unfolding rs using lp by simp
      have "rescan s ns = (P @ n @ [dquote]) @ R" "length (P @ n @ [dquote]) = a + length n + 1"
        using rs lp by simp_all
      then have d: "drop (a + length n + 1) (rescan s ns) = R"
        by (metis append_eq_conv_conj)
      have ih: "map group1 (finditer_from (p + (a + length n + 1)) R) = ns'"
        unfolding R_def using "1.IH"(2) [OF ne m refl refl len ns'] .
      have "map group1 (finditer_from p (rescan s ns)) = n # ns'"
        unfolding finditer_from_Some [OF m'] d using g ih by simp
      then show ?thesis
        using ns by simp
    qed
  qed
qed

section \<open>The rewrite engine: its result\<close>

lemma engine_eq:
  "replace_images_in_content c av d f =
     (splice_groups c 0 (finditer c) (map url_after (expected_changes av 0 (finditer c))),
      expected_changes av 0 (finditer c))"
proof (cases "finditer c = []")
  case True
  then show ?thesis by (simp add: replace_images_in_content_def)
next
  case False
  have "rewrite_loop av 0 (finditer c) (c, 0, []) =
          ([] @ splice_groups c 0 (finditer c) (map url_after (expected_changes av 0 (finditer c))),
           0 + (\<Sum>ch\<leftarrow>expected_changes av 0 (finditer c).
                  int (length (url_after ch)) - int (length (old_url ch))),
           [] @ expected_changes av 0 (finditer c))"
    by (rule rewrite_loop_result [OF finditer_spans]) simp_all
  then show ?thesis
    using False by (simp add: replace_images_in_content_def Let_def)
qed

lemma length_expected_changes: "length (expected_changes av i ms) = length ms"
  by (induction ms arbitrary: i) simp_all

lemma nth_expected_changes:
  "j < length ms \<Longrightarrow>
     expected_changes av i ms ! j =
       \<lparr>index = i + j + 1, old_url = group1 (ms ! j), new_url = image_filename (i + j + 2),
        exists = (image_filename (i + j + 2) \<in> set av)\<rparr>"
proof (induction ms arbitrary: i j)
  case Nil
  then show ?case by simp
next
  case (Cons m ms)
  show ?case
  proof (cases j)
    case 0
    then show ?thesis by simp
  next
    case (Suc k)
    with Cons.prems have "k < length ms" by simp
    from Cons.IH [OF this, of "i + 1"] Suc show ?thesis by simp
  qed
qed

lemma spans_ok_lower: "spans_ok c p ms \<Longrightarrow> m \<in> set ms \<Longrightarrow> p \<le> start1 m"
proof (induction ms arbitrary: p)
  case Nil
  then show ?case by simp
next
  case (Cons a ms)
  then show ?case by (auto dest: Cons.IH)
qed

lemma spans_ok_sorted: "spans_ok c p ms \<Longrightarrow> sorted_wrt (\<lambda>m m'. end1 m \<le> start1 m') ms"
proof (induction ms arbitrary: p)
  case Nil
  then show ?case by simp
next
  case (Cons a ms)
  then show ?case by (auto dest: spans_ok_lower)
qed

lemma spans_ok_nth:
  "spans_ok c p ms \<Longrightarrow> j < length ms \<Longrightarrow>
     start1 (ms ! j) \<le> end1 (ms ! j) \<and> end1 (ms ! j) \<le> length c
     \<and> group1 (ms ! j) = take (end1 (ms ! j) - start1 (ms ! j)) (drop (start1 (ms ! j)) c)"
proof (induction ms arbitrary: p j)
  case Nil
  then show ?case by simp
next
  case (Cons a ms)
  then show ?case by (cases j) auto
qed

lemma digit_char_not_quote: "d < 10 \<Longrightarrow> digit_char d \<noteq> dquote"
proof
  assume d: "d < 10" and "digit_char d = dquote"
  then have "(of_char (char_of (48 + d)) :: nat) = of_char (CHR 0x22)"
    by (simp add: digit_char_def dquote_def)
  with d show False by simp
qed

lemma str_nat_no_quote: "dquote \<notin> set (str_nat n)"
proof (induction n rule: str_nat.induct)
  case (1 n)
  show ?case
  proof (cases "n < 10")
    case True
    then show ?thesis
      using digit_char_not_quote [of n] by (subst str_nat.simps) auto
  next
    case False
    have "n mod 10 < 10" by simp
    then have "digit_char (n mod 10) \<noteq> dquote" by (rule digit_char_not_quote)
    with "1.IH" [OF False] False show ?thesis
      by (subst str_nat.simps) auto
  qed
qed

lemma url_text_image_filename: "url_text (image_filename n)"
  using str_nat_no_quote [of n] by (auto simp: url_text_def image_filename_def dquote_def)

lemma finditer_from_url_text: "m \<in> set (finditer_from pos s) \<Longrightarrow> url_text (group1 m)"
proof (induction pos s rule: finditer_from.induct)
  case (1 pos s)
  show ?case
  proof (cases "s = []")
    case True
    with "1.prems" show ?thesis by (simp add: finditer_from_Nil)
  next
    case ne: False
    show ?thesis
    proof (cases "img_match_at s")
      case None
      from ne obtain x xs where s: "s = x # xs" by (cases s) auto
      from "1.prems" None s have "m \<in> set (finditer_from (pos + 1) (tl s))"
        by (simp add: finditer_from_None)
      then show ?thesis by (rule "1.IH"(1) [OF ne None])
    next
      case (Some t)
      obtain a b e where t: "t = (a, b, e)" by (cases t) auto
      note mm = Some [unfolded t]
      from mm obtain ws url rest where
        u: "url \<noteq> []" "dquote \<notin> set url" and g: "take (b - a) (drop a s) = url"
        by (rule img_match_at_parts)
      from "1.prems" have "group1 m = url \<or> m \<in> set (finditer_from (pos + e) (drop e s))"
        unfolding finditer_from_Some [OF mm] using g by auto
      then show ?thesis
        using u "1.IH"(2) [OF ne mm refl refl] by (auto simp: url_text_def)
    qed
  qed
qed

lemma url_text_url_after_expected:
  "\<forall>m\<in>set ms. url_text (group1 m) \<Longrightarrow> \<forall>n\<in>set (map url_after (expected_changes av i ms)). url_text n"
  by (induction ms arbitrary: i) (auto simp: url_after_def url_text_image_filename)

lemma engine_rescan:
  "map group1 (finditer (fst (replace_images_in_content c av d f)))
     = map url_after (snd (replace_images_in_content c av d f))"
proof -
  let ?ns = "map url_after (expected_changes av 0 (finditer c))"
  have sp: "splice_groups c 0 (finditer c) ?ns = rescan c ?ns"
    using splice_groups_rescan [of 0 "[]" c ?ns] by (simp add: finditer_def)
  have ut: "\<forall>n\<in>set ?ns. url_text n"
    by (rule url_text_url_after_expected) (auto simp: finditer_def dest: finditer_from_url_text)
  have len: "length ?ns = length (finditer_from 0 c)"
    by (simp add: length_expected_changes finditer_def)
  have "map group1 (finditer_from 0 (rescan c ?ns)) = ?ns"
    using len ut by (rule finditer_from_rescan)
  then have "map group1 (finditer (rescan c ?ns)) = ?ns"
    by (simp only: finditer_def)
  then show ?thesis
    by (simp add: engine_eq sp)
qed

lemma length_splice_groups:
  "spans_ok c p ms \<Longrightarrow> length ns = length ms \<Longrightarrow>
     int (length (splice_groups c p ms ns)) =
       int (length c) - int p + (\<Sum>(m, n)\<leftarrow>zip ms ns. int (length n) - int (length (group1 m)))"
proof (induction ms arbitrary: p ns)
  case Nil
  then show ?case by simp
next
  case (Cons m ms)
  from Cons.prems(2) obtain n ns' where ns: "ns = n # ns'" and len: "length ns' = length ms"
    by (cases ns) auto
  from Cons.prems(1) have le: "p \<le> start1 m" "start1 m \<le> end1 m" "end1 m \<le> length c"
    and g: "group1 m = take (end1 m - start1 m) (drop (start1 m) c)"
    and rest: "spans_ok c (end1 m) ms"
    by simp_all
  have glen: "length (group1 m) = end1 m - start1 m"
    using g le by simp
  have gap: "length (take (start1 m - p) (drop p c)) = start1 m - p"
    using le by simp
  show ?case
    using Cons.IH [OF rest len] glen gap le unfolding ns by simp
qed

lemma engine_length:
  "int (length (fst (replace_images_in_content c av d f))) =
     int (length c)
     + (\<Sum>ch\<leftarrow>snd (replace_images_in_content c av d f).
          int (length (url_after ch)) - int (length (old_url ch)))"
proof -
  have z: "(\<Sum>(m, n)\<leftarrow>zip ms (map url_after (expected_changes av i ms)).
              int (length n) - int (length (group1 m)))
           = (\<Sum>ch\<leftarrow>expected_changes av i ms. int (length (url_after ch)) - int (length (old_url ch)))"
    for i ms
    by (induction ms arbitrary: i) simp_all
  show ?thesis
    using length_splice_groups [OF finditer_spans, of "map url_after (expected_changes av 0 (finditer c))" c]
    by (simp add: engine_eq length_expected_changes z)
qed

lemma url_after_settled:
  "map group1 ms' = map url_after (expected_changes av i ms) \<Longrightarrow>
     map url_after (expected_changes av i ms') = map group1 ms'"
proof (induction ms' arbitrary: ms i)
  case Nil
  then show ?case by simp
next
  case (Cons m' ms')
  from Cons.prems obtain m ms0 where ms: "ms = m # ms0"
    by (cases ms) auto
  from Cons.prems ms have hd: "group1 m' = (if image_filename (i + 2) \<in> set av then image_filename (i + 2) else group1 m)"
    and tl: "map group1 ms' = map url_after (expected_changes av (i + 1) ms0)"
    by (simp_all add: url_after_def)
  from Cons.IH [OF tl] hd show ?case
    by (simp add: url_after_def)
qed

lemma engine_idem:
  "fst (replace_images_in_content (fst (replace_images_in_content c av d f)) av d' f')
     = fst (replace_images_in_content c av d f)"
proof -
  let ?out = "fst (replace_images_in_content c av d f)"
  have "map group1 (finditer ?out) = map url_after (expected_changes av 0 (finditer c))"
    using engine_rescan [of c av d f] by (simp add: engine_eq)
  then have "map url_after (expected_changes av 0 (finditer ?out)) = map group1 (finditer ?out)"
    by (rule url_after_settled)
  then have "fst (replace_images_in_content ?out av d' f')
               = splice_groups ?out 0 (finditer ?out) (map group1 (finditer ?out))"
    by (simp add: engine_eq [of ?out])
  also have "\<dots> = drop 0 ?out"
    using finditer_spans by (rule splice_groups_own)
  finally show ?thesis by simp
qed

lemma engine_noop:
  assumes "\<forall>i < length (finditer c). image_filename (i + 2) \<in> set av
             \<longrightarrow> group1 (finditer c ! i) = image_filename (i + 2)"
  shows "fst (replace_images_in_content c av d f) = c"
proof -
  have "map url_after (expected_changes av 0 (finditer c)) = map group1 (finditer c)"
    using assms
    by (intro nth_equalityI) (auto simp: length_expected_changes nth_expected_changes url_after_def)
  then show ?thesis
    using splice_groups_own [OF finditer_spans, of c] by (simp add: engine_eq)
qed

lemma img_shape_atI:
  "drop p c = ''<img'' @ ws @ ''src='' @ [dquote] @ url @ [dquote] @ rest \<Longrightarrow>
   ws \<noteq> [] \<Longrightarrow> \<forall>c\<in>set ws. is_space c \<Longrightarrow> url \<noteq> [] \<Longrightarrow> dquote \<notin> set url \<Longrightarrow>
   img_shape_at c p url"
  unfolding img_shape_at_def by blast

lemma img_shape_at_drop: "img_shape_at (drop j s) k url = img_shape_at s (k + j) url"
  unfolding img_shape_at_def drop_drop ..

lemma finditer_from_shape:
  "m \<in> set (finditer_from pos s) \<Longrightarrow>
     pos \<le> start0 m \<and> img_shape_at s (start0 m - pos) (group1 m)"
proof (induction pos s rule: finditer_from.induct)
  case (1 pos s)
  show ?case
  proof (cases "s = []")
    case True
    with "1.prems" show ?thesis by (simp add: finditer_from_Nil)
  next
    case ne: False
    show ?thesis
    proof (cases "img_match_at s")
      case None
      from ne obtain x xs where s: "s = x # xs" by (cases s) auto
      from "1.prems" None s have "m \<in> set (finditer_from (pos + 1) (tl s))"
        by (simp add: finditer_from_None)
      from "1.IH"(1) [OF ne None this]
      have le: "pos + 1 \<le> start0 m" and sh: "img_shape_at (tl s) (start0 m - (pos + 1)) (group1 m)"
        by blast+
      from le have eq: "start0 m - (pos + 1) + 1 = start0 m - pos" by simp
      have "tl s = drop 1 s" by (simp add: drop_Suc)
      with sh have "img_shape_at s (start0 m - (pos + 1) + 1) (group1 m)"
        by (simp only: img_shape_at_drop)
      then have "img_shape_at s (start0 m - pos) (group1 m)"
        by (simp only: eq)
      with le show ?thesis by simp
    next
      case (Some t)
      obtain a b e where t: "t = (a, b, e)" by (cases t) auto
      note mm = Some [unfolded t]
      from "1.prems" consider
          (hd) "m = \<lparr>start0 = pos, end0 = pos + e, start1 = pos + a, end1 = pos + b,
                     group1 = take (b - a) (drop a s)\<rparr>"
        | (tl) "m \<in> set (finditer_from (pos + e) (drop e s))"
        unfolding finditer_from_Some [OF mm] by auto
      then show ?thesis
      proof cases
        case hd
        from img_match_at_elim [OF mm] obtain ws url rest where
          s: "s = ''<img'' @ ws @ ''src='' @ [dquote] @ url @ [dquote] @ rest"
          and w: "ws \<noteq> []" "\<forall>c\<in>set ws. is_space c" "url \<noteq> []" "dquote \<notin> set url"
          and a: "a = 9 + length ws" and b: "b = a + length url"
          by blast
        from mm obtain ws' url' rest' where
          s': "s = (''<img'' @ ws' @ ''src='' @ [dquote]) @ url' @ dquote # rest'"
          and w': "ws' \<noteq> []" "\<forall>c\<in>set ws'. is_space c" "url' \<noteq> []" "dquote \<notin> set url'"
          and g: "take (b - a) (drop a s) = url'"
          by (rule img_match_at_parts)
        have "drop 0 s = ''<img'' @ ws' @ ''src='' @ [dquote] @ url' @ [dquote] @ rest'"
          by (subst s') simp
        then have "img_shape_at s 0 url'"
          using w' by (rule img_shape_atI)
        then show ?thesis
          by (simp add: hd g)
      next
        case tl
        from "1.IH"(2) [OF ne mm refl refl tl]
        have le: "pos + e \<le> start0 m" and sh: "img_shape_at (drop e s) (start0 m - (pos + e)) (group1 m)"
          by blast+
        from le have eq: "start0 m - (pos + e) + e = start0 m - pos" by simp
        from sh have "img_shape_at s (start0 m - (pos + e) + e) (group1 m)"
          by (simp only: img_shape_at_drop)
        then have "img_shape_at s (start0 m - pos) (group1 m)"
          by (simp only: eq)
        with le show ?thesis by simp
      qed
    qed
  qed
qed

lemma finditer_from_empty_iff:
  "finditer_from pos s = [] \<longleftrightarrow> (\<forall>k. img_match_at (drop k s) = None)"
proof (induction pos s rule: finditer_from.induct)
  case (1 pos s)
  show ?case
  proof (cases "s = []")
    case True
    then show ?thesis by (simp add: finditer_from_Nil img_match_at_Nil)
  next
    case ne: False
    show ?thesis
    proof (cases "img_match_at s")
      case None
      from ne obtain x xs where s: "s = x # xs" by (cases s) auto
      have "(\<forall>k. img_match_at (drop k s) = None) \<longleftrightarrow> (\<forall>k. img_match_at (drop k xs) = None)"
      proof
        assume a: "\<forall>k. img_match_at (drop k s) = None"
        show "\<forall>k. img_match_at (drop k xs) = None"
        proof
          fix k from a have "img_match_at (drop (Suc k) s) = None" by blast
          then show "img_match_at (drop k xs) = None" using s by simp
        qed
      next
        assume a: "\<forall>k. img_match_at (drop k xs) = None"
        show "\<forall>k. img_match_at (drop k s) = None"
        proof
          fix k show "img_match_at (drop k s) = None"
            using a None s by (cases k) simp_all
        qed
      qed
      then show ?thesis
        using "1.IH"(1) [OF ne None] None s by (simp add: finditer_from_None)
    next
      case (Some t)
      obtain a b e where t: "t = (a, b, e)" by (cases t) auto
      have "\<exists>k. img_match_at (drop k s) \<noteq> None"
        by (rule exI [of _ 0]) (simp add: Some)
      then have "\<not> (\<forall>k. img_match_at (drop k s) = None)" by simp
      then show ?thesis
        by (simp add: finditer_from_Some [OF Some [unfolded t]])
    qed
  qed
qed

lemma no_shape_iff: "finditer c = [] \<longleftrightarrow> (\<forall>p url. \<not> img_shape_at c p url)"
proof -
  have "(\<forall>k. img_match_at (drop k c) = None) \<longleftrightarrow> (\<forall>p url. \<not> img_shape_at c p url)"
  proof
    assume a: "\<forall>k. img_match_at (drop k c) = None"
    show "\<forall>p url. \<not> img_shape_at c p url"
    proof (intro allI notI)
      fix p url assume "img_shape_at c p url"
      then obtain ws rest where
        "drop p c = ''<img'' @ ws @ ''src='' @ [dquote] @ url @ [dquote] @ rest"
        "ws \<noteq> []" "\<forall>c\<in>set ws. is_space c" "url \<noteq> []" "dquote \<notin> set url"
        unfolding img_shape_at_def by blast
      then have "img_match_at (drop p c) \<noteq> None"
        using img_match_at_intro [of ws url rest] by simp
      with a [rule_format, of p] show False by simp
    qed
  next
    assume a: "\<forall>p url. \<not> img_shape_at c p url"
    show "\<forall>k. img_match_at (drop k c) = None"
    proof (intro allI, rule ccontr)
      fix k assume "img_match_at (drop k c) \<noteq> None"
      then obtain a' b e where "img_match_at (drop k c) = Some (a', b, e)" by auto
      from img_match_at_elim [OF this] obtain ws url rest where
        "drop k c = ''<img'' @ ws @ ''src='' @ [dquote] @ url @ [dquote] @ rest"
        "ws \<noteq> []" "\<forall>c\<in>set ws. is_space c" "url \<noteq> []" "dquote \<notin> set url"
        by blast
      then have "img_shape_at c k url"
        by (rule img_shape_atI)
      with a [rule_format, of k url] show False by simp
    qed
  qed
  then show ?thesis
    by (simp add: finditer_def finditer_from_empty_iff)
qed

lemma map_old_url_expected: "map old_url (expected_changes av i ms) = map group1 ms"
  by (induction ms arbitrary: i) simp_all

lemma finditer_local_image:
  "finditer local_image =
     [\<lparr>start0 = 3, end0 = 26, start1 = 13, end1 = 25, group1 = ''image-2.webp''\<rparr>]"
  by code_simp

lemma finditer_attr_first_image: "finditer attr_first_image = []"
  by code_simp

lemma finditer_single_quoted_image: "finditer single_quoted_image = []"
  by code_simp

lemma engine_mixed_images:
  \<open>replace_images_in_content mixed_images [''image-2.webp''] False ''a1'' =
     (''<img class="x" src="https://cdn.x/a.jpg"> <img src="image-2.webp">'',
      [\<lparr>index = 1, old_url = ''https://cdn.x/b.jpg'', new_url = ''image-2.webp'', exists = True\<rparr>])\<close>
  by code_simp

lemma take_three:
  "pos \<le> a \<Longrightarrow> a \<le> b \<Longrightarrow> b \<le> e \<Longrightarrow>
   take (e - pos) (drop pos c)
     = take (a - pos) (drop pos c) @ take (b - a) (drop a c) @ take (e - b) (drop b c)"
proof -
  assume h: "pos \<le> a" "a \<le> b" "b \<le> e"
  have 1: "take (e - pos) (drop pos c)
        = take (a - pos) (drop pos c) @ take (e - a) (drop (a - pos) (drop pos c))"
    using take_add [of "a - pos" "e - a" "drop pos c"] h by simp
  have 2: "drop (a - pos) (drop pos c) = drop a c"
    using h by simp
  have 3: "take (e - a) (drop a c) = take (b - a) (drop a c) @ take (e - b) (drop (b - a) (drop a c))"
    using take_add [of "b - a" "e - b" "drop a c"] h by simp
  have 4: "drop (b - a) (drop a c) = drop b c"
    using h by simp
  show ?thesis
    unfolding 1 2 3 4 ..
qed

lemma drop_three:
  "pos \<le> a \<Longrightarrow> a \<le> b \<Longrightarrow>
   drop pos c = take (a - pos) (drop pos c) @ take (b - a) (drop a c) @ drop b c"
proof -
  assume h: "pos \<le> a" "a \<le> b"
  have 1: "drop pos c = take (a - pos) (drop pos c) @ drop (a - pos) (drop pos c)"
    by (simp only: append_take_drop_id)
  have 2: "drop (a - pos) (drop pos c) = drop a c"
    using h by simp
  have 3: "drop a c = take (b - a) (drop a c) @ drop (b - a) (drop a c)"
    by (simp only: append_take_drop_id)
  have 4: "drop (b - a) (drop a c) = drop b c"
    using h by simp
  show ?thesis
    by (subst 1, subst 2, subst 3, subst 4) (rule refl)
qed

lemma splice_groups_keeps:
  "spans_ok c pos ms \<Longrightarrow> pos \<le> a \<Longrightarrow> a \<le> b \<Longrightarrow>
   \<forall>m\<in>set ms. end1 m \<le> a \<or> b \<le> start1 m \<Longrightarrow>
   \<exists>before after. splice_groups c pos ms ns = before @ take (b - a) (drop a c) @ after"
proof (induction ms arbitrary: pos ns)
  case Nil
  have "splice_groups c pos [] ns = drop pos c" by simp
  also have "\<dots> = take (a - pos) (drop pos c) @ take (b - a) (drop a c) @ drop b c"
    using Nil.prems(2,3) by (rule drop_three)
  finally show ?case by blast
next
  case (Cons m ms)
  show ?case
  proof (cases ns)
    case Nil
    have "splice_groups c pos (m # ms) [] = drop pos c" by simp
    also have "\<dots> = take (a - pos) (drop pos c) @ take (b - a) (drop a c) @ drop b c"
      using Cons.prems(2,3) by (rule drop_three)
    finally show ?thesis unfolding Nil by blast
  next
    case (Cons n ns')
    from Cons.prems(1) have lo: "pos \<le> start1 m" and rest: "spans_ok c (end1 m) ms"
      by simp_all
    from Cons.prems(4) have here: "end1 m \<le> a \<or> b \<le> start1 m"
      and others: "\<forall>m\<in>set ms. end1 m \<le> a \<or> b \<le> start1 m"
      by simp_all
    have eq: "splice_groups c pos (m # ms) ns
                = take (start1 m - pos) (drop pos c) @ n @ splice_groups c (end1 m) ms ns'"
      unfolding Cons by simp
    from here show ?thesis
    proof
      assume le: "end1 m \<le> a"
      from Cons.IH [OF rest le Cons.prems(3) others, of ns']
      obtain before after where
        "splice_groups c (end1 m) ms ns' = before @ take (b - a) (drop a c) @ after"
        by (elim exE)
      then have "splice_groups c pos (m # ms) ns
                   = (take (start1 m - pos) (drop pos c) @ n @ before)
                     @ take (b - a) (drop a c) @ after"
        unfolding eq by simp
      then show ?thesis by blast
    next
      assume ge: "b \<le> start1 m"
      have "take (start1 m - pos) (drop pos c)
              = take (a - pos) (drop pos c) @ take (b - a) (drop a c)
                @ take (start1 m - b) (drop b c)"
        using Cons.prems(2,3) ge by (rule take_three)
      then have "splice_groups c pos (m # ms) ns
                   = take (a - pos) (drop pos c) @ take (b - a) (drop a c)
                     @ (take (start1 m - b) (drop b c) @ n @ splice_groups c (end1 m) ms ns')"
        unfolding eq by simp
      then show ?thesis by blast
    qed
  qed
qed

lemma engine_keeps:
  assumes "content = before @ part @ after"
    and "\<forall>m\<in>set (finditer content).
           end1 m \<le> length before \<or> length before + length part \<le> start1 m"
  shows "\<exists>before' after'.
           fst (replace_images_in_content content available_images dry_run folder_name)
             = before' @ part @ after'"
proof -
  have p: "take (length before + length part - length before) (drop (length before) content) = part"
    unfolding assms(1) by simp
  from splice_groups_keeps [OF finditer_spans, of "length before" "length before + length part"
      content "map url_after (expected_changes available_images 0 (finditer content))"] assms(2)
  show ?thesis
    unfolding p engine_eq fst_conv by simp
qed

lemma other_tag_no_shape:
  assumes d: "drop p content = ''<img'' @ ws @ rest"
    and ws: "\<forall>c\<in>set ws. is_space c"
    and r: "rest = [] \<or> \<not> is_space (hd rest)"
    and np: "\<not> prefix (''src='' @ [dquote]) rest"
  shows "\<not> img_shape_at content p url"
proof
  assume "img_shape_at content p url"
  then obtain ws' rest' where
    d': "drop p content = ''<img'' @ ws' @ ''src='' @ [dquote] @ url @ [dquote] @ rest'"
    and ws': "\<forall>c\<in>set ws'. is_space c"
    unfolding img_shape_at_def by blast
  from d d' have e: "ws @ rest = ws' @ (''src='' @ [dquote] @ url @ [dquote] @ rest')"
    by simp
  have "dropWhile is_space (ws @ rest) = rest"
  proof -
    have "dropWhile is_space (ws @ rest) = dropWhile is_space rest"
      using ws by (simp add: dropWhile_append2)
    also have "\<dots> = rest"
      using r by (cases rest) simp_all
    finally show ?thesis .
  qed
  moreover have "dropWhile is_space (ws' @ (''src='' @ [dquote] @ url @ [dquote] @ rest'))
                   = ''src='' @ [dquote] @ url @ [dquote] @ rest'"
  proof -
    have "dropWhile is_space (ws' @ (''src='' @ [dquote] @ url @ [dquote] @ rest'))
            = dropWhile is_space (''src='' @ [dquote] @ url @ [dquote] @ rest')"
      using ws' by (simp add: dropWhile_append2)
    also have "\<dots> = ''src='' @ [dquote] @ url @ [dquote] @ rest'"
      by (simp add: is_space_def)
    finally show ?thesis .
  qed
  ultimately have "rest = (''src='' @ [dquote]) @ (url @ [dquote] @ rest')"
    unfolding e by simp
  then have "prefix (''src='' @ [dquote]) rest"
    by (rule prefixI)
  with np show False ..
qed

section \<open>The content extractor: its result\<close>

lemma is_space_lt: "\<not> is_space (CHR ''<'')"
  by (simp add: is_space_def)

lemma dropWhile_space_lt:
  "\<forall>c\<in>set ws. is_space c \<Longrightarrow> dropWhile is_space (ws @ CHR ''<'' # r) = CHR ''<'' # r"
  by (induction ws) (simp_all add: is_space_lt)

lemma closing_atI:
  assumes "\<forall>c\<in>set ws. is_space c"
  shows "closing_at (''</div>'' @ ws @ ''</body>'' @ rest)"
proof -
  have "dropWhile is_space (ws @ CHR ''<'' # (''/body>'' @ rest)) = CHR ''<'' # (''/body>'' @ rest)"
    using assms by (rule dropWhile_space_lt)
  then show ?thesis
    by (simp add: closing_at_def)
qed

lemma closing_atD:
  assumes "closing_at s"
  shows "\<exists>ws rest. s = ''</div>'' @ ws @ ''</body>'' @ rest \<and> (\<forall>c\<in>set ws. is_space c)"
proof -
  from assms obtain r where s: "s = ''</div>'' @ r"
    by (auto simp: closing_at_def prefix_def)
  with assms have "prefix ''</body>'' (dropWhile is_space r)"
    by (simp add: closing_at_def)
  then obtain rest where d: "dropWhile is_space r = ''</body>'' @ rest"
    by (auto simp: prefix_def)
  have "r = takeWhile is_space r @ dropWhile is_space r" by simp
  then have "r = takeWhile is_space r @ ''</body>'' @ rest"
    by (simp only: d)
  moreover have "\<forall>c\<in>set (takeWhile is_space r). is_space c"
    by (auto dest: set_takeWhileD)
  ultimately show ?thesis
    using s by blast
qed

lemma closing_at_Nil: "\<not> closing_at []"
  by (simp add: closing_at_def)

lemma lazy_body_Some:
  "lazy_body s = Some n \<Longrightarrow>
     n \<le> length s \<and> closing_at (drop n s) \<and> (\<forall>k<n. \<not> closing_at (drop k s))"
proof (induction s arbitrary: n)
  case Nil
  then show ?case by (simp add: closing_at_Nil)
next
  case (Cons c cs)
  show ?case
  proof (cases "closing_at (c # cs)")
    case True
    with Cons.prems show ?thesis by simp
  next
    case False
    with Cons.prems obtain n' where n': "lazy_body cs = Some n'" and n: "n = Suc n'"
      by auto
    from Cons.IH [OF n'] have ih: "n' \<le> length cs" "closing_at (drop n' cs)"
      "\<forall>k<n'. \<not> closing_at (drop k cs)"
      by blast+
    have "\<forall>k<n. \<not> closing_at (drop k (c # cs))"
    proof (intro allI impI)
      fix k assume "k < n"
      then show "\<not> closing_at (drop k (c # cs))"
        using False ih(3) n by (cases k) simp_all
    qed
    then show ?thesis
      using ih n by simp
  qed
qed

lemma lazy_body_None: "lazy_body s = None \<Longrightarrow> \<not> closing_at (drop k s)"
proof (induction s arbitrary: k)
  case Nil
  then show ?case by (simp add: closing_at_Nil)
next
  case (Cons c cs)
  from Cons.prems have nc: "\<not> closing_at (c # cs)" and n: "lazy_body cs = None"
    by (simp_all split: if_splits)
  show ?case
    using nc Cons.IH [OF n] by (cases k) simp_all
qed

lemma content_search_Some:
  "content_search pos s = Some (st, en) \<Longrightarrow>
     \<exists>i n. st = pos + i + length open_tag \<and> en = st + n
       \<and> prefix open_tag (drop i s)
       \<and> lazy_body (drop (i + length open_tag) s) = Some n
       \<and> (\<forall>j<i. \<not> (prefix open_tag (drop j s)
                     \<and> lazy_body (drop (j + length open_tag) s) \<noteq> None))"
proof (induction s arbitrary: pos)
  case Nil
  then show ?case by simp
next
  case (Cons c cs)
  let ?hit = "prefix open_tag (c # cs) \<and> lazy_body (drop (length open_tag) (c # cs)) \<noteq> None"
  show ?case
  proof (cases ?hit)
    case True
    then obtain n where n: "lazy_body (drop (length open_tag) (c # cs)) = Some n"
      by auto
    with True Cons.prems have "st = pos + length open_tag" "en = st + n"
      by simp_all
    with True n show ?thesis
      by (intro exI [of _ 0] exI [of _ n]) simp
  next
    case False
    with Cons.prems have "content_search (pos + 1) cs = Some (st, en)"
      by (auto split: if_splits option.splits)
    from Cons.IH [OF this] obtain i n where
      ih: "st = pos + 1 + i + length open_tag" "en = st + n" "prefix open_tag (drop i cs)"
        "lazy_body (drop (i + length open_tag) cs) = Some n"
        "\<forall>j<i. \<not> (prefix open_tag (drop j cs) \<and> lazy_body (drop (j + length open_tag) cs) \<noteq> None)"
      by blast
    have "\<forall>j<Suc i. \<not> (prefix open_tag (drop j (c # cs))
                     \<and> lazy_body (drop (j + length open_tag) (c # cs)) \<noteq> None)"
    proof (intro allI impI)
      fix j assume "j < Suc i"
      then show "\<not> (prefix open_tag (drop j (c # cs))
                     \<and> lazy_body (drop (j + length open_tag) (c # cs)) \<noteq> None)"
        using False ih(5) by (cases j) simp_all
    qed
    with ih(1-4) show ?thesis
      by (intro exI [of _ "Suc i"] exI [of _ n]) simp
  qed
qed

lemma content_search_None:
  "content_search pos s = None \<Longrightarrow>
     \<not> (prefix open_tag (drop i s) \<and> lazy_body (drop (i + length open_tag) s) \<noteq> None)"
proof (induction s arbitrary: pos i)
  case Nil
  then show ?case by (simp add: open_tag_def)
next
  case (Cons c cs)
  from Cons.prems have
    h: "\<not> (prefix open_tag (c # cs) \<and> lazy_body (drop (length open_tag) (c # cs)) \<noteq> None)"
    and n: "content_search (pos + 1) cs = None"
    by (auto split: if_splits option.splits)
  show ?case
    using h Cons.IH [OF n] by (cases i) simp_all
qed

lemma open_tag_length: "length open_tag = 21"
  by (simp add: open_tag_def)

lemma content_occursD:
  assumes "content_occurs html st en"
  shows "length open_tag \<le> st \<and> st \<le> en \<and> en \<le> length html
         \<and> prefix open_tag (drop (st - length open_tag) html) \<and> closing_at (drop en html)"
proof -
  from assms obtain pre body ws rest where
    h: "html = pre @ open_tag @ body @ ''</div>'' @ ws @ ''</body>'' @ rest"
    and ws: "\<forall>c\<in>set ws. is_space c"
    and st: "st = length pre + length open_tag" and en: "en = st + length body"
    unfolding content_occurs_def by blast
  define C where "C = ''</div>'' @ ws @ ''</body>'' @ rest"
  have cl: "closing_at C" unfolding C_def using ws by (rule closing_atI)
  have h1: "html = pre @ (open_tag @ body @ C)" by (simp add: h C_def)
  have h2: "html = (pre @ open_tag @ body) @ C" by (simp add: h C_def)
  have 1: "drop (st - length open_tag) html = open_tag @ body @ C"
    using st by (subst h1) simp
  have "length (pre @ open_tag @ body) = en" using st en by simp
  then have 2: "drop en html = C" using h2 by (metis append_eq_conv_conj)
  have 3: "en \<le> length html" using st en by (subst h2) simp
  show ?thesis
    using st en 1 2 3 cl by simp
qed

lemma content_occursI:
  assumes "length open_tag \<le> st" "st \<le> en"
    and p: "prefix open_tag (drop (st - length open_tag) html)"
    and c: "closing_at (drop en html)"
  shows "content_occurs html st en"
proof -
  define i where "i = st - length open_tag"
  from p obtain r where r: "drop i html = open_tag @ r"
    unfolding i_def by (auto simp: prefix_def)
  have "drop i html \<noteq> []" using r by (simp add: open_tag_def)
  then have i: "i < length html" by simp
  have st: "st = i + length open_tag" using assms(1) by (simp add: i_def)
  have "drop st html = drop (length open_tag) (drop i html)"
    by (simp add: st add.commute)
  then have dr: "drop st html = r" by (simp add: r)
  from closing_atD [OF c] obtain ws rest where
    C: "drop en html = ''</div>'' @ ws @ ''</body>'' @ rest" and ws: "\<forall>c\<in>set ws. is_space c"
    by blast
  have "drop en html \<noteq> []" using C by simp
  then have en: "en < length html" by simp
  define body where "body = take (en - st) r"
  have "drop (en - st) r = drop (en - st + st) html"
    unfolding dr [symmetric] by (rule drop_drop)
  then have "drop (en - st) r = drop en html" using assms(2) by simp
  then have rb: "r = body @ drop en html"
    unfolding body_def by (metis append_take_drop_id)
  have "length r = length html - st" using dr by (metis length_drop)
  then have lb: "length body = en - st" using en assms(2) by (simp add: body_def)
  have "html = take i html @ drop i html" by simp
  then have h: "html = take i html @ open_tag @ body @ ''</div>'' @ ws @ ''</body>'' @ rest"
    using r rb C by simp
  have li: "length (take i html) = i" using i by simp
  show ?thesis
    unfolding content_occurs_def
    using h ws li st lb assms(2)
    by (intro exI [of _ "take i html"] exI [of _ body] exI [of _ ws] exI [of _ rest]) simp
qed

lemma content_search_found:
  assumes "content_search 0 html = Some (st, en)"
  shows "content_occurs html st en \<and> st \<le> en \<and> en \<le> length html
         \<and> (\<forall>st2 en2. content_occurs html st2 en2 \<longrightarrow> st \<le> st2 \<and> en \<le> en2)"
proof -
  from content_search_Some [OF assms] obtain i n where
    st: "st = i + length open_tag" and en: "en = st + n"
    and p: "prefix open_tag (drop i html)"
    and l: "lazy_body (drop (i + length open_tag) html) = Some n"
    and first: "\<forall>j<i. \<not> (prefix open_tag (drop j html)
                     \<and> lazy_body (drop (j + length open_tag) html) \<noteq> None)"
    by auto
  from lazy_body_Some [OF l] have
    c: "closing_at (drop n (drop st html))"
    and least: "\<forall>k<n. \<not> closing_at (drop k (drop st html))"
    by (simp_all add: st)
  have c': "closing_at (drop en html)"
    using c by (simp add: en add.commute)
  have occ: "content_occurs html st en"
    by (rule content_occursI) (use st en p c' in simp_all)
  have "st2 \<ge> st \<and> en2 \<ge> en" if o2: "content_occurs html st2 en2" for st2 en2
  proof -
    from content_occursD [OF o2] have
      d: "length open_tag \<le> st2" "st2 \<le> en2"
        "prefix open_tag (drop (st2 - length open_tag) html)" "closing_at (drop en2 html)"
      by blast+
    define j where "j = st2 - length open_tag"
    have st2: "st2 = j + length open_tag" using d(1) by (simp add: j_def)
    have "drop (en2 - st2) (drop st2 html) = drop (en2 - st2 + st2) html"
      by (rule drop_drop)
    then have "closing_at (drop (en2 - st2) (drop st2 html))"
      using d(2,4) by simp
    then have "lazy_body (drop (j + length open_tag) html) \<noteq> None"
      unfolding st2 [symmetric] using lazy_body_None by blast
    with d(3) first have "\<not> j < i"
      unfolding j_def [symmetric] by blast
    then have le: "st \<le> st2" using st st2 by simp
    have "drop (en2 - st) (drop st html) = drop (en2 - st + st) html"
      by (rule drop_drop)
    then have "closing_at (drop (en2 - st) (drop st html))"
      using d(2,4) le by simp
    with least have "\<not> en2 - st < n" by blast
    then have "en \<le> en2" using en le d(2) by simp
    with le show ?thesis by simp
  qed
  then show ?thesis
    using occ content_occursD [OF occ] by blast
qed

lemma content_search_none_iff:
  "content_search 0 html = None \<longleftrightarrow> \<not> (\<exists>st en. content_occurs html st en)"
proof
  assume n: "content_search 0 html = None"
  show "\<not> (\<exists>st en. content_occurs html st en)"
  proof
    assume "\<exists>st en. content_occurs html st en"
    then obtain st en where o: "content_occurs html st en" by blast
    from content_occursD [OF o] have
      d: "length open_tag \<le> st" "st \<le> en"
        "prefix open_tag (drop (st - length open_tag) html)" "closing_at (drop en html)"
      by blast+
    define j where "j = st - length open_tag"
    have st: "st = j + length open_tag" using d(1) by (simp add: j_def)
    have "drop (en - st) (drop st html) = drop (en - st + st) html"
      by (rule drop_drop)
    then have "closing_at (drop (en - st) (drop st html))"
      using d(2,4) by simp
    then have "lazy_body (drop (j + length open_tag) html) \<noteq> None"
      unfolding st [symmetric] using lazy_body_None by blast
    with d(3) content_search_None [OF n, of j] show False
      unfolding j_def [symmetric] by blast
  qed
next
  assume no: "\<not> (\<exists>st en. content_occurs html st en)"
  show "content_search 0 html = None"
  proof (rule ccontr)
    assume "content_search 0 html \<noteq> None"
    then obtain st en where "content_search 0 html = Some (st, en)" by auto
    from content_search_found [OF this] no show False by blast
  qed
qed

lemma extract_found:
  "content_search 0 html = Some (st, en) \<Longrightarrow>
     extract_content_section html = (int st, int en, take (en - st) (drop st html))"
  by (simp add: extract_content_section_def)

lemma extract_none:
  "content_search 0 html = None \<Longrightarrow> extract_content_section html = (- 1, - 1, [])"
  by (simp add: extract_content_section_def)

lemma extract_cases:
  obtains (found) st en where "content_search 0 html = Some (st, en)"
      "extract_content_section html = (int st, int en, take (en - st) (drop st html))"
    | (none) "content_search 0 html = None" "extract_content_section html = (- 1, - 1, [])"
  by (cases "content_search 0 html") (auto simp: extract_content_section_def)

section \<open>The article processor: its result\<close>

lemma universal_newlines_id: "char_cr \<notin> set s \<Longrightarrow> universal_newlines s = s"
  by (induction s rule: universal_newlines.induct) auto

lemma write_newlines_lf: "write_newlines [char_lf] s = s"
  by (induction s) (simp_all add: write_newlines_def)

lemma slice_to_nat: "slice_to s (int n) = take n s"
  by (simp add: slice_to_def)

lemma slice_from_nat: "slice_from s (int n) = drop n s"
  by (simp add: slice_from_def)

lemma all_exist_iff: "length (filter exists chs) = length chs \<longleftrightarrow> (\<forall>ch\<in>set chs. exists ch)"
proof -
  have "length (filter exists chs) + length (filter (\<lambda>c. \<not> exists c) chs) = length chs"
    by (rule sum_length_filter_compl)
  then have "length (filter exists chs) = length chs \<longleftrightarrow> filter (\<lambda>c. \<not> exists c) chs = []"
    by auto
  then show ?thesis
    by (simp add: filter_empty_conv)
qed

lemma process_article_not_found:
  assumes "read_article d = Inr html" "get_available_images d = Inr av"
    and "content_search 0 html = None"
  shows "process_article ls p d dry =
           Inr (\<lparr>folder = path_name p, path = path_str p, changes = [],
                 errors = [''Sezione .content non trovata''], images_in_html = 0,
                 images_available = length av\<rparr>, d)"
  using assms by (simp add: process_article_def extract_none)

lemma process_article_found:
  assumes "read_article d = Inr html" "get_available_images d = Inr av"
    and "content_search 0 html = Some (st, en)"
    and "replace_images_in_content (take (en - st) (drop st html)) av dry (path_name p) = (nc, chs)"
  shows "process_article ls p d dry =
           Inr (\<lparr>folder = path_name p, path = path_str p, changes = chs,
                 errors = (if \<exists>ch\<in>set chs. \<not> exists ch then [missing_error chs] else []),
                 images_in_html = length chs, images_available = length av\<rparr>,
                if \<not> dry \<and> chs \<noteq> []
                then AList.update ''article.html''
                       (File (write_newlines ls (take st html @ nc @ drop en html))) d
                else d)"
proof -
  have e: "extract_content_section html = (int st, int en, take (en - st) (drop st html))"
    using assms(3) by (rule extract_found)
  have n: "int st \<noteq> - 1" by simp
  show ?thesis
    unfolding process_article_def
    using assms(1,2,4) n
    by (simp add: e Let_def slice_to_nat slice_from_nat all_exist_iff missing_error_def
          del: of_nat_eq_iff)
qed

lemma process_article_Inr:
  assumes "process_article ls p d dry = Inr (r, d')"
  obtains html av where "read_article d = Inr html" "get_available_images d = Inr av"
  using assms unfolding process_article_def
  by (cases "read_article d"; cases "get_available_images d") simp_all

lemma read_article_folder: "read_article article_folder = Inr article_html"
  by code_simp
lemma inventory_article_folder: "get_available_images article_folder = Inr [''image-2.webp'', ''image-10.webp'']"
  by code_simp
lemma content_search_plain_html: "content_search 0 plain_html = None"
  by code_simp

lemma engine_args:
  "replace_images_in_content c av d f = replace_images_in_content c av d' f'"
  by (simp add: engine_eq)

lemma missing_names:
  "map new_url (filter (\<lambda>c. \<not> exists c) (expected_changes av i ms)) =
     map (\<lambda>j. image_filename (j + 2))
       (filter (\<lambda>j. image_filename (j + 2) \<notin> set av) [i ..< i + length ms])"
proof (induction ms arbitrary: i)
  case Nil
  then show ?case by simp
next
  case (Cons m ms)
  from Cons.IH [of "i + 1"] show ?case
    by (simp add: upt_conv_Cons del: upt_Suc)
qed

lemma main_loop_step:
  "process_article ls p d dry = Inr rd \<Longrightarrow>
     main_loop ls dry ((p, d) # rest)
       = (case main_loop ls dry rest of (rs, err) \<Rightarrow> (rd # rs, err))"
  by simp

lemma engine_article_folder:
  "replace_images_in_content two_images [''image-2.webp'', ''image-10.webp''] dry f =
     (''<img src='' @ [dquote] @ ''image-2.webp'' @ [dquote] @ ''> <img src='' @ [dquote]
        @ ''https://cdn.x/b.jpg'' @ [dquote] @ ''>'',
      [\<lparr>index = 1, old_url = ''https://cdn.x/a.jpg'', new_url = ''image-2.webp'', exists = True\<rparr>,
       \<lparr>index = 2, old_url = ''https://cdn.x/b.jpg'', new_url = ''image-3.webp'', exists = False\<rparr>])"
proof -
  have "replace_images_in_content two_images [''image-2.webp'', ''image-10.webp''] True [] =
     (''<img src='' @ [dquote] @ ''image-2.webp'' @ [dquote] @ ''> <img src='' @ [dquote]
        @ ''https://cdn.x/b.jpg'' @ [dquote] @ ''>'',
      [\<lparr>index = 1, old_url = ''https://cdn.x/a.jpg'', new_url = ''image-2.webp'', exists = True\<rparr>,
       \<lparr>index = 2, old_url = ''https://cdn.x/b.jpg'', new_url = ''image-3.webp'', exists = False\<rparr>])"
    by code_simp
  then show ?thesis
    using engine_args [of two_images "[''image-2.webp'', ''image-10.webp'']" dry f True "[]"] by simp
qed

lemma extract_article_html: "extract_content_section article_html = (27, 90, two_images)"
  by code_simp

lemma extract_plain_html: "extract_content_section plain_html = (- 1, - 1, [])"
  by code_simp

lemma content_search_article_html: "content_search 0 article_html = Some (27, 90)"
  by code_simp

lemma fragment_article_html: "take (90 - 27) (drop 27 article_html) = two_images"
  by code_simp

lemma read_plain_folder: "read_article plain_folder = Inr plain_html"
  by code_simp

lemma inventory_plain_folder: "get_available_images plain_folder = Inr []"
  by code_simp

lemma str_nat_1: "str_nat (Suc 0) = ''1''"
  by code_simp

lemma image_filename_3: "image_filename (1 + 2) = ''image-3.webp''"
  by code_simp

lemma splice_article_html:
  "take 27 article_html
     @ fst (replace_images_in_content two_images [''image-2.webp'', ''image-10.webp''] False ''a1'')
     @ drop 90 article_html = article_html_after"
  unfolding engine_article_folder by code_simp

lemma read_article_Inr:
  assumes "read_article d = Inr html"
  obtains stored where "map_of d ''article.html'' = Some (File stored)"
    "html = universal_newlines stored"
  using assms unfolding read_article_def
  by (auto split: option.splits node.splits)

section \<open>The inventory and the folder scanner: their results\<close>

lemma with_keys_ok:
  "\<forall>x\<in>set xs. search_image_number x \<noteq> None \<Longrightarrow>
     with_keys xs = Inr (map (\<lambda>x. (int_of_digits (the (search_image_number x)), x)) xs)"
  by (induction xs) (auto simp: image_key_def)

lemma image_key_the:
  "search_image_number x \<noteq> None \<Longrightarrow> image_key x = Inr (int_of_digits (the (search_image_number x)))"
  by (auto simp: image_key_def)

lemma inventory_result:
  assumes "\<forall>x\<in>set (filter (\<lambda>name. prefix ''image-'' name \<and> suffix ''.webp'' name) (map fst d)).
             search_image_number x \<noteq> None"
  shows "\<exists>images keys. get_available_images d = Inr images
           \<and> mset images = mset (filter (\<lambda>name. prefix ''image-'' name \<and> suffix ''.webp'' name)
                                    (map fst d))
           \<and> map image_key images = map Inr keys \<and> sorted keys"
proof -
  let ?names = "filter (\<lambda>name. prefix ''image-'' name \<and> suffix ''.webp'' name) (map fst d)"
  let ?key = "\<lambda>x. int_of_digits (the (search_image_number x))"
  let ?ps = "map (\<lambda>x. (?key x, x)) ?names"
  let ?qs = "sort_key fst ?ps"
  have wk: "with_keys ?names = Inr ?ps"
    using assms by (rule with_keys_ok)
  have g: "get_available_images d = Inr (map snd ?qs)"
    unfolding get_available_images_def Let_def wk by simp
  have ms: "map snd ?ps = ?names"
    unfolding map_map by (rule map_idI) simp
  have "mset (map snd ?qs) = image_mset snd (mset ?qs)" by (rule mset_map)
  also have "\<dots> = image_mset snd (mset ?ps)" by (simp only: mset_sort)
  also have "\<dots> = mset (map snd ?ps)" by (rule mset_map [symmetric])
  finally have m: "mset (map snd ?qs) = mset ?names"
    unfolding ms .
  have "\<forall>p\<in>set ?qs. image_key (snd p) = Inr (fst p)"
  proof
    fix p assume "p \<in> set ?qs"
    then have "p \<in> set ?ps" by simp
    then obtain x where x: "x \<in> set ?names" and p: "p = (?key x, x)" by auto
    from assms x have "search_image_number x \<noteq> None" by blast
    then show "image_key (snd p) = Inr (fst p)"
      unfolding p by (simp add: image_key_the)
  qed
  then have k: "map image_key (map snd ?qs) = map Inr (map fst ?qs)"
    by simp
  have s: "sorted (map fst ?qs)" by (rule sorted_sort_key)
  show ?thesis
    using g m k s by blast
qed

lemma scan_one:
  "\<forall>f. map_of base subdir \<noteq> Some (File f) \<Longrightarrow>
     \<exists>found. scan_subdirs base_path base (subdir # rest) folders
               = scan_subdirs base_path base rest (folders @ found)
       \<and> set found = listed base_path base subdir"
proof (cases "map_of base subdir")
  case None
  then show ?thesis
    by (intro exI [of _ "[]"]) (simp add: listed_def)
next
  case (Some n)
  assume nf: "\<forall>f. map_of base subdir \<noteq> Some (File f)"
  with Some obtain children where n: "n = Dir children"
    by (cases n) auto
  let ?found = "map (\<lambda>(name, folder). base_path @ [subdir, name])
               (filter (\<lambda>(name, folder). is_dir folder \<and> child_exists folder ''article.html'')
                  children)"
  have "set ?found = listed base_path base subdir"
  proof (intro set_eqI iffI)
    fix p assume "p \<in> set ?found"
    then obtain name fo where m: "(name, fo) \<in> set children" and q: "is_dir fo"
      "child_exists fo ''article.html''" and p: "p = base_path @ [subdir, name]"
      by auto
    from q(1) obtain es where fo: "fo = Dir es" by (cases fo) (simp_all add: is_dir_def)
    from q(2) fo have "''article.html'' \<in> fst ` set es" by (simp add: child_exists_def)
    with m fo Some n p show "p \<in> listed base_path base subdir"
      unfolding listed_def by blast
  next
    fix p assume "p \<in> listed base_path base subdir"
    then obtain name es where m: "(name, Dir es) \<in> set children"
      and a: "''article.html'' \<in> fst ` set es" and p: "p = base_path @ [subdir, name]"
      unfolding listed_def using Some n by auto
    have "is_dir (Dir es) \<and> child_exists (Dir es) ''article.html''"
      using a by (simp add: is_dir_def child_exists_def)
    with m have "(name, Dir es) \<in> set (filter (\<lambda>(name, folder). is_dir folder
        \<and> child_exists folder ''article.html'') children)"
      by simp
    then have "(\<lambda>(name, folder). base_path @ [subdir, name]) (name, Dir es) \<in> set ?found"
      unfolding set_map by (rule imageI)
    then show "p \<in> set ?found"
      unfolding p by simp
  qed
  then show ?thesis
    using Some n by (intro exI [of _ ?found]) simp
qed

lemma find_article_folders_result:
  assumes "\<forall>f. map_of base ''articles'' \<noteq> Some (File f)"
    and "\<forall>f. map_of base ''feedback-friday'' \<noteq> Some (File f)"
  shows "\<exists>folders. find_article_folders base_path base = Inr folders
           \<and> sorted folders
           \<and> set folders = listed base_path base ''articles''
                            \<union> listed base_path base ''feedback-friday''"
proof -
  from scan_one [OF assms(1), of base_path "[''feedback-friday'']" "[]"]
  obtain f1 where 1: "scan_subdirs base_path base [''articles'', ''feedback-friday''] []
               = scan_subdirs base_path base [''feedback-friday''] ([] @ f1)"
    and s1: "set f1 = listed base_path base ''articles''"
    by blast
  from scan_one [OF assms(2), of base_path "[]" "[] @ f1"]
  obtain f2 where 2: "scan_subdirs base_path base [''feedback-friday''] ([] @ f1)
               = scan_subdirs base_path base [] (([] @ f1) @ f2)"
    and s2: "set f2 = listed base_path base ''feedback-friday''"
    by blast
  have "find_article_folders base_path base = Inr (sort (f1 @ f2))"
    unfolding find_article_folders_def 1 2 by simp
  then show ?thesis
    using s1 s2 by (intro exI [of _ "sort (f1 @ f2)"]) simp
qed

lemma digit_char_props: "d < 10 \<Longrightarrow> is_digit (digit_char d) \<and> digit_val (digit_char d) = d"
  by (simp add: is_digit_def digit_val_def digit_char_def)

lemma str_nat_digits: "\<forall>c\<in>set (str_nat n). is_digit c"
proof (induction n rule: str_nat.induct)
  case (1 n)
  show ?case
  proof (cases "n < 10")
    case True
    then show ?thesis
      using digit_char_props [of n] by (subst str_nat.simps) simp
  next
    case False
    have "is_digit (digit_char (n mod 10))"
      using digit_char_props [of "n mod 10"] by simp
    with "1.IH" [OF False] False show ?thesis
      by (subst str_nat.simps) simp
  qed
qed

lemma str_nat_not_Nil: "str_nat n \<noteq> []"
  by (subst str_nat.simps) simp

lemma int_of_digits_snoc: "int_of_digits (ds @ [c]) = 10 * int_of_digits ds + digit_val c"
  by (simp add: int_of_digits_def)

lemma int_of_digits_str_nat: "int_of_digits (str_nat n) = n"
proof (induction n rule: str_nat.induct)
  case (1 n)
  show ?case
  proof (cases "n < 10")
    case True
    then have "str_nat n = [digit_char n]" by (subst str_nat.simps) simp
    then show ?thesis
      using digit_char_props [OF True] by (simp add: int_of_digits_def)
  next
    case False
    then have s: "str_nat n = str_nat (n div 10) @ [digit_char (n mod 10)]"
      by (subst str_nat.simps) simp
    have "digit_val (digit_char (n mod 10)) = n mod 10"
      using digit_char_props [of "n mod 10"] by simp
    then show ?thesis
      unfolding s int_of_digits_snoc using "1.IH" [OF False] by simp
  qed
qed

lemma takeWhile_digits_dot:
  "\<forall>c\<in>set ds. is_digit c \<Longrightarrow> takeWhile is_digit (ds @ CHR ''.'' # r) = ds"
  by (induction ds) (simp_all add: is_digit_def)

lemma image_key_image_filename: "image_key (image_filename n) = Inr n"
proof -
  have t: "takeWhile is_digit (str_nat n @ CHR ''.'' # ''webp'') = str_nat n"
    using str_nat_digits by (rule takeWhile_digits_dot)
  have "search_image_number (''image-'' @ str_nat n @ ''.webp'') = Some (str_nat n)"
    using t str_nat_not_Nil [of n] by simp
  then show ?thesis
    by (simp add: image_key_def image_filename_def int_of_digits_str_nat)
qed

text \<open>
  The expected file names are made of letters, digits, \<open>-\<close> and \<open>.\<close>, so \<^const>\<open>repr_str\<close> is
  what \<open>repr\<close> gives for them.
\<close>

lemma image_filename_plain:
  "\<forall>c\<in>set (image_filename n). is_digit c \<or> c \<in> set ''image-.webp''"
proof -
  have "set (image_filename n) = set ''image-'' \<union> (set (str_nat n) \<union> set ''.webp'')"
    unfolding image_filename_def by (simp only: set_append)
  then show ?thesis
    using str_nat_digits [of n] by auto
qed

lemma names_article_folder:
  "filter (\<lambda>name. prefix ''image-'' name \<and> suffix ''.webp'' name) (map fst article_folder)
     = [''image-10.webp'', ''image-2.webp'']"
  by code_simp

lemma numbers_article_folder:
  "search_image_number ''image-10.webp'' = Some ''10''"
  "search_image_number ''image-2.webp'' = Some ''2''"
  by code_simp+

lemma lexicographic_10_2: "''image-10.webp'' < ''image-2.webp''"
  by code_simp

lemma find_base_tree:
  "find_article_folders [''site''] base_tree =
     Inr [[''site'', ''articles'', ''a-b''], [''site'', ''articles'', ''k''],
          [''site'', ''feedback-friday'', ''b''], [''site'', ''feedback-friday'', ''z'']]"
  by code_simp

lemma image_file_names_all:
  "\<forall>(name, e)\<in>set d. prefix ''image-'' name \<and> suffix ''.webp'' name \<longrightarrow> \<not> is_dir e \<Longrightarrow>
   filter (\<lambda>name. prefix ''image-'' name \<and> suffix ''.webp'' name) (map fst d)
     = image_file_names d"
  unfolding image_file_names_def
  by (induction d) (auto simp del: prefix_code suffix_def)

lemma listed_eq_qualifying:
  assumes "\<forall>children name es e. map_of base subdir = Some (Dir children) \<longrightarrow>
             (name, Dir es) \<in> set children \<longrightarrow> (''article.html'', e) \<in> set es \<longrightarrow> \<not> is_dir e"
  shows "listed base_path base subdir = qualifying base_path base subdir"
proof (intro set_eqI iffI)
  fix p assume "p \<in> listed base_path base subdir"
  then obtain name children es where p: "p = base_path @ [subdir, name]"
    and c: "map_of base subdir = Some (Dir children)" and m: "(name, Dir es) \<in> set children"
    and a: "''article.html'' \<in> fst ` set es"
    unfolding listed_def by blast
  from a obtain e where e: "(''article.html'', e) \<in> set es"
    by force
  from assms c m e have "\<not> is_dir e"
    by blast
  then obtain body where "e = File body"
    by (cases e) (simp_all add: is_dir_def)
  with e have "(''article.html'', File body) \<in> set es"
    by simp
  with p c m show "p \<in> qualifying base_path base subdir"
    unfolding qualifying_def by blast
next
  fix p assume "p \<in> qualifying base_path base subdir"
  then obtain name children es body where p: "p = base_path @ [subdir, name]"
    and c: "map_of base subdir = Some (Dir children)" and m: "(name, Dir es) \<in> set children"
    and a: "(''article.html'', File body) \<in> set es"
    unfolding qualifying_def by blast
  from a have "''article.html'' \<in> fst ` set es"
    by force
  with p c m show "p \<in> listed base_path base subdir"
    unfolding listed_def by blast
qed

lemma no_file_in_article_dir:
  "qualifying [''site''] base_with_article_dir ''articles'' = {}"
  unfolding qualifying_def base_with_article_dir_def by simp

lemma no_feedback_in_article_dir:
  "qualifying [''site''] base_with_article_dir ''feedback-friday'' = {}"
  unfolding qualifying_def base_with_article_dir_def by simp

section \<open>The claims\<close>

text \<open>
  C1. For every fragment and every inventory the engine returns one change record for each
  match of the scan, in the order of the scan, which goes from left to right; the record at
  0-based position \<open>i\<close> has index \<open>i + 1\<close>, the new URL \<open>image-(i+2).webp\<close> whether or not the
  inventory has that name, and as old URL the text of the group of the \<open>i\<close>-th match.
\<close>

theorem engine_records_follow_scan:
  "length (snd (replace_images_in_content content available_images dry_run folder_name))
     = length (finditer content)
   \<and> sorted_wrt (\<lambda>m m'. end1 m \<le> start1 m') (finditer content)
   \<and> (\<forall>i < length (finditer content).
        index (snd (replace_images_in_content content available_images dry_run folder_name) ! i)
          = i + 1
      \<and> new_url (snd (replace_images_in_content content available_images dry_run folder_name) ! i)
          = ''image-'' @ str_nat (i + 2) @ ''.webp''
      \<and> old_url (snd (replace_images_in_content content available_images dry_run folder_name) ! i)
          = group1 (finditer content ! i)
      \<and> group1 (finditer content ! i)
          = take (end1 (finditer content ! i) - start1 (finditer content ! i))
              (drop (start1 (finditer content ! i)) content))"
  using spans_ok_sorted [OF finditer_spans, of content] spans_ok_nth [OF finditer_spans, of _ content]
  by (simp add: engine_eq length_expected_changes nth_expected_changes image_filename_def)

lemma finditer_two_images:
  "finditer two_images =
     [\<lparr>start0 = 0, end0 = 30, start1 = 10, end1 = 29, group1 = ''https://cdn.x/a.jpg''\<rparr>,
      \<lparr>start0 = 32, end0 = 62, start1 = 42, end1 = 61, group1 = ''https://cdn.x/b.jpg''\<rparr>]"
  by code_simp

theorem engine_records_follow_scan_witness:
  "(1::nat) < length (finditer two_images)
   \<and> index (snd (replace_images_in_content two_images [''image-2.webp''] True ''a1'') ! 1) = 2
   \<and> new_url (snd (replace_images_in_content two_images [''image-2.webp''] True ''a1'') ! 1)
       = ''image-3.webp''
   \<and> old_url (snd (replace_images_in_content two_images [''image-2.webp''] True ''a1'') ! 1)
       = ''https://cdn.x/b.jpg''"
proof -
  have l: "(1::nat) < length (finditer two_images)"
    by (simp add: finditer_two_images)
  have s: "''image-'' @ str_nat (1 + 2) @ ''.webp'' = ''image-3.webp''"
    by code_simp
  have g: "group1 (finditer two_images ! 1) = ''https://cdn.x/b.jpg''"
    by (simp add: finditer_two_images)
  let ?chs = "snd (replace_images_in_content two_images [''image-2.webp''] True ''a1'')"
  from l engine_records_follow_scan [of two_images "[''image-2.webp'']" True "''a1''"]
  have h: "index (?chs ! 1) = 1 + 1 \<and> new_url (?chs ! 1) = ''image-'' @ str_nat (1 + 2) @ ''.webp''
        \<and> old_url (?chs ! 1) = group1 (finditer two_images ! 1)"
    by blast
  from h [unfolded s g] l show ?thesis
    by simp
qed

text \<open>
  C2, as stated, gives the record at 0-based position \<open>i\<close> the new URL \<open>image-(i+1).webp\<close>.
  For a fragment with one image the only record, at position 0, has \<open>image-2.webp\<close>.
\<close>

theorem new_url_not_i_plus_1:
  "new_url (snd (replace_images_in_content one_image [''image-2.webp''] False ''a1'') ! 0)
     \<noteq> ''image-'' @ str_nat (0 + 1) @ ''.webp''"
  by code_simp

text \<open>
  C2, amended. For a fragment with \<open>k\<close> matches the engine produces exactly \<open>k\<close> change
  records, with the indices \<open>1, \<dots>, k\<close>, and the record at 0-based position \<open>i\<close> has the
  new URL \<open>image-(i+2).webp\<close>.
\<close>

theorem engine_records_numbering:
  "map index (snd (replace_images_in_content content available_images dry_run folder_name))
     = [1 ..< Suc (length (finditer content))]
   \<and> map new_url (snd (replace_images_in_content content available_images dry_run folder_name))
     = map (\<lambda>i. ''image-'' @ str_nat (i + 2) @ ''.webp'') [0 ..< length (finditer content)]"
proof -
  have "map index (expected_changes av i ms) = [i + 1 ..< i + 1 + length ms]
        \<and> map new_url (expected_changes av i ms) = map (\<lambda>j. image_filename (j + 2)) [i ..< i + length ms]"
    for av i ms
  proof (induction ms arbitrary: i)
    case Nil
    then show ?case by simp
  next
    case (Cons m ms)
    from Cons.IH [of "i + 1"] show ?case
      by (simp add: upt_conv_Cons del: upt_Suc)
  qed
  from this [of available_images 0 "finditer content"] show ?thesis
    by (simp add: engine_eq image_filename_def)
qed

lemma finditer_linked_image:
  "finditer linked_image =
     [\<lparr>start0 = 30, end0 = 60, start1 = 40, end1 = 59, group1 = ''https://cdn.x/a.jpg''\<rparr>]"
  by code_simp

lemma engine_linked_image:
  \<open>replace_images_in_content linked_image [''image-2.webp''] False ''a1'' =
     (''<a href="https://cdn.x/a.jpg"><img src="image-2.webp"></a>'',
      [\<lparr>index = 1, old_url = ''https://cdn.x/a.jpg'', new_url = ''image-2.webp'', exists = True\<rparr>])\<close>
  by code_simp

text \<open>
  C3, as stated, says that with every expected name in the inventory the output contains none
  of the original URLs. A URL that also occurs outside an \<open>img\<close> tag, here in the link around
  the image, stays where it was: the engine replaces the spans of the groups and nothing else.
\<close>

theorem original_url_still_in_output:
  \<open>length (finditer linked_image) = 1
   \<and> image_filename (0 + 2) \<in> set [''image-2.webp'']
   \<and> old_url (snd (replace_images_in_content linked_image [''image-2.webp''] False ''a1'') ! 0)
       = ''https://cdn.x/a.jpg''
   \<and> sublist ''https://cdn.x/a.jpg''
       (fst (replace_images_in_content linked_image [''image-2.webp''] False ''a1''))\<close>
proof -
  have 1: "image_filename (0 + 2) \<in> set [''image-2.webp'']"
    by code_simp
  have \<open>''<a href="https://cdn.x/a.jpg"><img src="image-2.webp"></a>''
          = ''<a href="'' @ ''https://cdn.x/a.jpg'' @ ''"><img src="image-2.webp"></a>''\<close>
    by simp
  then have 2: \<open>sublist ''https://cdn.x/a.jpg'' ''<a href="https://cdn.x/a.jpg"><img src="image-2.webp"></a>''\<close>
    unfolding sublist_def by blast
  show ?thesis
    using 1 2 by (simp add: finditer_linked_image engine_linked_image)
qed

text \<open>
  C3, amended. When the expected name of every occurrence is in the inventory, the output is
  the fragment with the span of the group of every match replaced by its expected name (the
  fragment itself being that text with the groups in their spans); scanning the output
  finds, occurrence by occurrence, the expected names; and the length of the output is the
  length of the fragment plus the sum over the records of the length of the new URL minus
  the length of the old one.
\<close>

theorem all_present_spans_replaced:
  assumes "\<forall>i < length (finditer content). image_filename (i + 2) \<in> set available_images"
  shows "fst (replace_images_in_content content available_images dry_run folder_name)
           = splice_groups content 0 (finditer content)
               (map (\<lambda>i. image_filename (i + 2)) [0 ..< length (finditer content)])
         \<and> content = splice_groups content 0 (finditer content) (map group1 (finditer content))
         \<and> map group1 (finditer (fst (replace_images_in_content content available_images dry_run
                                         folder_name)))
           = map (\<lambda>i. image_filename (i + 2)) [0 ..< length (finditer content)]
         \<and> int (length (fst (replace_images_in_content content available_images dry_run folder_name)))
           = int (length content)
             + (\<Sum>ch\<leftarrow>snd (replace_images_in_content content available_images dry_run folder_name).
                  int (length (new_url ch)) - int (length (old_url ch)))"
proof -
  let ?R = "replace_images_in_content content available_images dry_run folder_name"
  let ?k = "length (finditer content)"
  have ex: "\<forall>ch\<in>set (snd ?R). url_after ch = new_url ch"
  proof
    fix ch assume "ch \<in> set (snd ?R)"
    then obtain i where i: "i < ?k" and ch: "ch = expected_changes available_images 0 (finditer content) ! i"
      by (auto simp: engine_eq in_set_conv_nth length_expected_changes)
    from assms i have "image_filename (i + 2) \<in> set available_images" by simp
    then show "url_after ch = new_url ch"
      using i by (simp add: ch nth_expected_changes url_after_def)
  qed
  have nu: "map new_url (snd ?R) = map (\<lambda>i. image_filename (i + 2)) [0 ..< ?k]"
    by (rule nth_equalityI) (simp_all add: engine_eq length_expected_changes nth_expected_changes)
  from ex have ua: "map url_after (snd ?R) = map (\<lambda>i. image_filename (i + 2)) [0 ..< ?k]"
    unfolding nu [symmetric] by simp
  have 1: "fst ?R = splice_groups content 0 (finditer content)
                     (map (\<lambda>i. image_filename (i + 2)) [0 ..< ?k])"
    using ua by (simp add: engine_eq)
  have 2: "content = splice_groups content 0 (finditer content) (map group1 (finditer content))"
    using splice_groups_own [OF finditer_spans, of content] by simp
  have 3: "map group1 (finditer (fst ?R)) = map (\<lambda>i. image_filename (i + 2)) [0 ..< ?k]"
    using engine_rescan [of content available_images dry_run folder_name] ua by simp
  have "(\<Sum>ch\<leftarrow>snd ?R. int (length (url_after ch)) - int (length (old_url ch)))
          = (\<Sum>ch\<leftarrow>snd ?R. int (length (new_url ch)) - int (length (old_url ch)))"
    using ex by (intro arg_cong [where f = sum_list] map_cong) simp_all
  then have 4: "int (length (fst ?R)) = int (length content)
             + (\<Sum>ch\<leftarrow>snd ?R. int (length (new_url ch)) - int (length (old_url ch)))"
    using engine_length [of content available_images dry_run folder_name] by simp
  show ?thesis
    using 1 2 3 4 by blast
qed

theorem all_present_spans_replaced_witness:
  \<open>length (finditer two_images) = 2
   \<and> image_filename (0 + 2) \<in> set [''image-3.webp'', ''image-2.webp'']
   \<and> image_filename (1 + 2) \<in> set [''image-3.webp'', ''image-2.webp'']
   \<and> map group1 (finditer (fst (replace_images_in_content two_images
                                   [''image-3.webp'', ''image-2.webp''] False ''a1'')))
       = [''image-2.webp'', ''image-3.webp'']
   \<and> int (length (fst (replace_images_in_content two_images
                          [''image-3.webp'', ''image-2.webp''] False ''a1'')))
       = int (length two_images) + ((12 - 19) + (12 - 19))\<close>
proof -
  have f2: "image_filename (0 + 2) = ''image-2.webp''" and f3: "image_filename (1 + 2) = ''image-3.webp''"
    by code_simp+
  have h: "\<forall>i < length (finditer two_images). image_filename (i + 2) \<in> set [''image-3.webp'', ''image-2.webp'']"
    using f2 f3 by (simp add: finditer_two_images less_Suc_eq)
  have m: "map (\<lambda>i. image_filename (i + 2)) [0 ..< length (finditer two_images)]
             = [''image-2.webp'', ''image-3.webp'']"
    using f2 f3 by (simp add: finditer_two_images upt_conv_Cons del: upt_Suc)
  have s: "snd (replace_images_in_content two_images [''image-3.webp'', ''image-2.webp''] False ''a1'')
            = [\<lparr>index = 1, old_url = ''https://cdn.x/a.jpg'', new_url = ''image-2.webp'', exists = True\<rparr>,
               \<lparr>index = 2, old_url = ''https://cdn.x/b.jpg'', new_url = ''image-3.webp'', exists = True\<rparr>]"
    by code_simp
  note t = all_present_spans_replaced [OF h, of False "''a1''", unfolded m]
  from t have 3: "map group1 (finditer (fst (replace_images_in_content two_images
                    [''image-3.webp'', ''image-2.webp''] False ''a1'')))
                  = [''image-2.webp'', ''image-3.webp'']"
    by blast
  from t have "int (length (fst (replace_images_in_content two_images
                   [''image-3.webp'', ''image-2.webp''] False ''a1'')))
       = int (length two_images)
         + (\<Sum>ch\<leftarrow>snd (replace_images_in_content two_images
                          [''image-3.webp'', ''image-2.webp''] False ''a1'').
              int (length (new_url ch)) - int (length (old_url ch)))"
    by blast
  then have 4: "int (length (fst (replace_images_in_content two_images
                   [''image-3.webp'', ''image-2.webp''] False ''a1'')))
       = int (length two_images) + ((12 - 19) + (12 - 19))"
    unfolding s by simp
  have l: "length (finditer two_images) = 2"
    by (simp add: finditer_two_images)
  from l f2 f3 3 4 show ?thesis
    by simp
qed

text \<open>
  C6. For every fragment and inventory, the engine applied to its own output with the same
  inventory returns that output unchanged. An occurrence whose URL already is its expected
  name is treated like any other: it gets its change record, with the old URL equal to the
  new one, and the replacement leaves the text as it was; so a fragment in which every
  occurrence with an expected name in the inventory already carries that name is returned
  unchanged.
\<close>

theorem engine_idempotent:
  "fst (replace_images_in_content
          (fst (replace_images_in_content content available_images dry_run folder_name))
          available_images dry_run folder_name)
     = fst (replace_images_in_content content available_images dry_run folder_name)
   \<and> ((\<forall>i < length (finditer content).
          image_filename (i + 2) \<in> set available_images
            \<longrightarrow> group1 (finditer content ! i) = image_filename (i + 2))
        \<longrightarrow> fst (replace_images_in_content content available_images dry_run folder_name) = content
          \<and> (\<forall>i < length (finditer content).
                image_filename (i + 2) \<in> set available_images
                  \<longrightarrow> snd (replace_images_in_content content available_images dry_run folder_name) ! i
                        = \<lparr>index = i + 1, old_url = image_filename (i + 2),
                           new_url = image_filename (i + 2), exists = True\<rparr>))"
proof (intro conjI impI)
  show "fst (replace_images_in_content
          (fst (replace_images_in_content content available_images dry_run folder_name))
          available_images dry_run folder_name)
     = fst (replace_images_in_content content available_images dry_run folder_name)"
    by (rule engine_idem)
next
  assume h: "\<forall>i < length (finditer content).
          image_filename (i + 2) \<in> set available_images
            \<longrightarrow> group1 (finditer content ! i) = image_filename (i + 2)"
  then show "fst (replace_images_in_content content available_images dry_run folder_name) = content"
    by (rule engine_noop)
  show "\<forall>i < length (finditer content).
                image_filename (i + 2) \<in> set available_images
                  \<longrightarrow> snd (replace_images_in_content content available_images dry_run folder_name) ! i
                        = \<lparr>index = i + 1, old_url = image_filename (i + 2),
                           new_url = image_filename (i + 2), exists = True\<rparr>"
    using h by (simp add: engine_eq nth_expected_changes)
qed

theorem engine_idempotent_witness:
  "length (finditer local_image) = 1
   \<and> image_filename (0 + 2) \<in> set [''image-2.webp'']
   \<and> group1 (finditer local_image ! 0) = image_filename (0 + 2)
   \<and> fst (replace_images_in_content local_image [''image-2.webp''] False ''a1'') = local_image
   \<and> snd (replace_images_in_content local_image [''image-2.webp''] False ''a1'') ! 0
       = \<lparr>index = 1, old_url = ''image-2.webp'', new_url = ''image-2.webp'', exists = True\<rparr>"
proof -
  have f2: "image_filename (0 + 2) = ''image-2.webp''"
    by code_simp
  have h: "\<forall>i < length (finditer local_image).
      image_filename (i + 2) \<in> set [''image-2.webp'']
        \<longrightarrow> group1 (finditer local_image ! i) = image_filename (i + 2)"
    using f2 by (simp add: finditer_local_image)
  note t = engine_idempotent [of local_image "[''image-2.webp'']" False "''a1''"]
  from t h have 1: "fst (replace_images_in_content local_image [''image-2.webp''] False ''a1'') = local_image"
    by blast
  from t h have "\<forall>i < length (finditer local_image).
                image_filename (i + 2) \<in> set [''image-2.webp'']
                  \<longrightarrow> snd (replace_images_in_content local_image [''image-2.webp''] False ''a1'') ! i
                        = \<lparr>index = i + 1, old_url = image_filename (i + 2),
                           new_url = image_filename (i + 2), exists = True\<rparr>"
    by blast
  then have "image_filename (0 + 2) \<in> set [''image-2.webp'']
                  \<longrightarrow> snd (replace_images_in_content local_image [''image-2.webp''] False ''a1'') ! 0
                        = \<lparr>index = 0 + 1, old_url = image_filename (0 + 2),
                           new_url = image_filename (0 + 2), exists = True\<rparr>"
    by (simp add: finditer_local_image)
  then have 2: "snd (replace_images_in_content local_image [''image-2.webp''] False ''a1'') ! 0
       = \<lparr>index = 1, old_url = ''image-2.webp'', new_url = ''image-2.webp'', exists = True\<rparr>"
    unfolding f2 by simp
  have l: "length (finditer local_image) = 1"
    by (simp add: finditer_local_image)
  have g: "group1 (finditer local_image ! 0) = image_filename (0 + 2)"
    unfolding f2 by (simp add: finditer_local_image)
  from l f2 g 1 2 show ?thesis by simp
qed

text \<open>
  C4. For every fragment and inventory, an occurrence whose expected name \<open>image-(i+2).webp\<close>
  is not in the inventory gets a change record with \<open>exists\<close> false, and the text of the
  fragment is not changed at it: the output is the fragment with the URL of every record
  put in the span of its match, which for this record is the old URL, and scanning the
  output finds the original URL at that occurrence. Once the article has been read, the
  inventory listed and the content section found, the article processor returns a result and
  does not raise: the result carries the records of the engine, and its errors are the one
  string \<open>N immagini mancanti: [...]\<close>, with the expected names of the records that have
  \<open>exists\<close> false, when there is such a record, and no string otherwise; the loop over the
  folders goes on with the next folder.
\<close>

theorem missing_image_left_alone:
  "(\<forall>i < length (finditer content).
      image_filename (i + 2) \<notin> set available_images \<longrightarrow>
        exists (snd (replace_images_in_content content available_images dry_run folder_name) ! i)
          = False
      \<and> new_url (snd (replace_images_in_content content available_images dry_run folder_name) ! i)
          = image_filename (i + 2)
      \<and> old_url (snd (replace_images_in_content content available_images dry_run folder_name) ! i)
          = group1 (finditer content ! i)
      \<and> group1 (finditer (fst (replace_images_in_content content available_images dry_run
                                  folder_name)) ! i)
          = group1 (finditer content ! i))
   \<and> length (finditer (fst (replace_images_in_content content available_images dry_run
                              folder_name)))
       = length (finditer content)
   \<and> fst (replace_images_in_content content available_images dry_run folder_name)
       = splice_groups content 0 (finditer content)
           (map url_after (snd (replace_images_in_content content available_images dry_run
                                 folder_name)))
   \<and> (read_article folder_dir = Inr html \<longrightarrow>
        get_available_images folder_dir = Inr available_images \<longrightarrow>
        extract_content_section html = (start, end, content) \<longrightarrow> start \<noteq> - 1 \<longrightarrow>
        (\<exists>r d'. process_article os_linesep folder_path folder_dir dry_run = Inr (r, d')
           \<and> changes r = snd (replace_images_in_content content available_images dry_run folder_name)
           \<and> errors r =
               (if \<exists>ch\<in>set (changes r). \<not> exists ch
                then [str_nat (length (filter (\<lambda>c. \<not> exists c) (changes r)))
                      @ '' immagini mancanti: ''
                      @ repr_list (map new_url (filter (\<lambda>c. \<not> exists c) (changes r)))]
                else [])
           \<and> map new_url (filter (\<lambda>c. \<not> exists c) (changes r))
               = map (\<lambda>j. image_filename (j + 2))
                   (filter (\<lambda>j. image_filename (j + 2) \<notin> set available_images)
                      [0 ..< length (finditer content)])
           \<and> main_loop os_linesep dry_run ((folder_path, folder_dir) # rest)
               = (case main_loop os_linesep dry_run rest of (rs, err) \<Rightarrow> ((r, d') # rs, err))))"
proof -
  let ?R = "replace_images_in_content content available_images dry_run folder_name"
  let ?k = "length (finditer content)"
  have resc: "map group1 (finditer (fst ?R)) = map url_after (snd ?R)"
    by (rule engine_rescan)
  have len: "length (finditer (fst ?R)) = ?k"
    using arg_cong [OF resc, of length] by (simp add: engine_eq length_expected_changes)
  have 1: "\<forall>i < ?k. image_filename (i + 2) \<notin> set available_images \<longrightarrow>
        exists (snd ?R ! i) = False \<and> new_url (snd ?R ! i) = image_filename (i + 2)
      \<and> old_url (snd ?R ! i) = group1 (finditer content ! i)
      \<and> group1 (finditer (fst ?R) ! i) = group1 (finditer content ! i)"
  proof (intro allI impI)
    fix i assume i: "i < ?k" and miss: "image_filename (i + 2) \<notin> set available_images"
    have "group1 (finditer (fst ?R) ! i) = map group1 (finditer (fst ?R)) ! i"
      using i len by simp
    also have "\<dots> = url_after (snd ?R ! i)"
      unfolding resc using i by (simp add: engine_eq length_expected_changes)
    also have "\<dots> = group1 (finditer content ! i)"
      using i miss by (simp add: engine_eq nth_expected_changes url_after_def)
    finally have g: "group1 (finditer (fst ?R) ! i) = group1 (finditer content ! i)" .
    show "exists (snd ?R ! i) = False \<and> new_url (snd ?R ! i) = image_filename (i + 2)
      \<and> old_url (snd ?R ! i) = group1 (finditer content ! i)
      \<and> group1 (finditer (fst ?R) ! i) = group1 (finditer content ! i)"
      using i miss g by (simp add: engine_eq nth_expected_changes)
  qed
  have 3: "fst ?R = splice_groups content 0 (finditer content) (map url_after (snd ?R))"
    by (simp add: engine_eq)
  have 4: "\<exists>r d'. process_article os_linesep folder_path folder_dir dry_run = Inr (r, d')
           \<and> changes r = snd ?R
           \<and> errors r =
               (if \<exists>ch\<in>set (changes r). \<not> exists ch
                then [str_nat (length (filter (\<lambda>c. \<not> exists c) (changes r)))
                      @ '' immagini mancanti: ''
                      @ repr_list (map new_url (filter (\<lambda>c. \<not> exists c) (changes r)))]
                else [])
           \<and> map new_url (filter (\<lambda>c. \<not> exists c) (changes r))
               = map (\<lambda>j. image_filename (j + 2))
                   (filter (\<lambda>j. image_filename (j + 2) \<notin> set available_images) [0 ..< ?k])
           \<and> main_loop os_linesep dry_run ((folder_path, folder_dir) # rest)
               = (case main_loop os_linesep dry_run rest of (rs, err) \<Rightarrow> ((r, d') # rs, err))"
    if ra: "read_article folder_dir = Inr html"
      and ga: "get_available_images folder_dir = Inr available_images"
      and ex: "extract_content_section html = (start, end, content)" and st: "start \<noteq> - 1"
  proof -
    obtain st en where cs: "content_search 0 html = Some (st, en)"
      and c: "content = take (en - st) (drop st html)"
      using ex st by (cases html rule: extract_cases) auto
    obtain nc chs where R': "replace_images_in_content (take (en - st) (drop st html))
        available_images dry_run (path_name folder_path) = (nc, chs)"
      by force
    have chs: "chs = snd ?R"
      using R' engine_args [of content available_images dry_run folder_name dry_run
          "path_name folder_path"] c by simp
    note pa = process_article_found [OF ra ga cs R']
    have mn: "map new_url (filter (\<lambda>c. \<not> exists c) chs)
               = map (\<lambda>j. image_filename (j + 2))
                   (filter (\<lambda>j. image_filename (j + 2) \<notin> set available_images) [0 ..< ?k])"
      unfolding chs using missing_names [of available_images 0 "finditer content"]
      by (simp add: engine_eq)
    show ?thesis
      using pa chs mn main_loop_step [OF pa, where rest = rest]
      by (simp add: missing_error_def)
  qed
  from 1 len 3 4 show ?thesis
    by blast
qed

theorem missing_image_left_alone_witness:
  "(1::nat) < length (finditer two_images)
   \<and> image_filename (1 + 2) \<notin> set [''image-2.webp'', ''image-10.webp'']
   \<and> exists (snd (replace_images_in_content two_images [''image-2.webp'', ''image-10.webp'']
                     True ''a1'') ! 1) = False
   \<and> group1 (finditer (fst (replace_images_in_content two_images
                               [''image-2.webp'', ''image-10.webp''] True ''a1'')) ! 1)
       = ''https://cdn.x/b.jpg''
   \<and> read_article article_folder = Inr article_html
   \<and> get_available_images article_folder = Inr [''image-2.webp'', ''image-10.webp'']
   \<and> extract_content_section article_html = (27, 90, two_images)
   \<and> (\<exists>r d'. process_article [char_lf] [''articles'', ''a1''] article_folder True = Inr (r, d')
        \<and> errors r = [''1 immagini mancanti: ['' @ [CHR 0x27] @ ''image-3.webp'' @ [CHR 0x27]
                        @ '']''])"
proof -
  let ?av = "[''image-2.webp'', ''image-10.webp'']"
  let ?R = "replace_images_in_content two_images ?av True ''a1''"
  note t = missing_image_left_alone [of two_images ?av True "''a1''" article_folder article_html
      27 90 "[char_lf]" "[''articles'', ''a1'']" "[]"]
  have l: "(1::nat) < length (finditer two_images)"
    by (simp add: finditer_two_images)
  have m: "image_filename (1 + 2) \<notin> set ?av"
    unfolding image_filename_3 by simp
  from t l m have "exists (snd ?R ! 1) = False
      \<and> group1 (finditer (fst ?R) ! 1) = group1 (finditer two_images ! 1)"
    by blast
  then have a: "exists (snd ?R ! 1) = False" and b: "group1 (finditer (fst ?R) ! 1) = ''https://cdn.x/b.jpg''"
    by (simp_all add: finditer_two_images)
  have st: "(27::int) \<noteq> - 1" by simp
  from t read_article_folder inventory_article_folder extract_article_html st
  obtain r d' where p: "process_article [char_lf] [''articles'', ''a1''] article_folder True = Inr (r, d')"
    and c: "changes r = snd ?R"
    and e: "errors r =
               (if \<exists>ch\<in>set (changes r). \<not> exists ch
                then [str_nat (length (filter (\<lambda>c. \<not> exists c) (changes r)))
                      @ '' immagini mancanti: ''
                      @ repr_list (map new_url (filter (\<lambda>c. \<not> exists c) (changes r)))]
                else [])"
    by blast
  have "errors r = [''1 immagini mancanti: ['' @ [CHR 0x27] @ ''image-3.webp'' @ [CHR 0x27] @ '']'']"
    unfolding e c engine_article_folder
    by (simp add: str_nat_1 repr_list_def repr_str_def)
  with p have "\<exists>r d'. process_article [char_lf] [''articles'', ''a1''] article_folder True = Inr (r, d')
        \<and> errors r = [''1 immagini mancanti: ['' @ [CHR 0x27] @ ''image-3.webp'' @ [CHR 0x27]
                        @ '']'']"
    by blast
  with l m a b read_article_folder inventory_article_folder extract_article_html
  show ?thesis by blast
qed

text \<open>
  C5, as stated, fails: a write does not keep every byte outside the span of the fragment.
  The file is read with every line ending given as \<open>\n\<close>, and the text written is made from
  the text read: in an article with the line ending \<open>\r\n\<close> before the content section, on a
  system whose line separator is \<open>\n\<close>, the carriage return at offset 6, outside the span, is
  not in the file written.
\<close>

theorem carriage_return_outside_span_lost:
  "process_article [char_lf] [''articles'', ''a1''] crlf_folder False
     = Inr (\<lparr>folder = ''a1'', path = ''articles/a1'',
             changes = [\<lparr>index = 1, old_url = ''https://cdn.x/a.jpg'', new_url = ''image-2.webp'',
                         exists = True\<rparr>],
             errors = [], images_in_html = 1, images_available = 1\<rparr>,
            [(''article.html'', File crlf_html_after), (''image-2.webp'', File [])])
   \<and> map_of crlf_folder ''article.html'' = Some (File crlf_html)
   \<and> extract_content_section (universal_newlines crlf_html) = (28, 59, one_image)
   \<and> crlf_html ! 6 = char_cr
   \<and> crlf_html_after ! 6 = char_lf"
  by code_simp

text \<open>
  C5, amended. In preview mode a call of the article processor that returns leaves the folder
  as it was. Outside preview mode it leaves the folder as it was when there is no change
  record, and when there is one the only entry it changes is \<open>article.html\<close>: the text written
  is the text as it was read, that is with every line ending \<open>\r\n\<close> or \<open>\r\<close> of the file
  given as \<open>\n\<close>, with the span of the content section replaced by the new fragment, and with
  every \<open>\n\<close> written as the line separator of the system. The text read is kept before the
  start and from the end of the span on; when the file has no carriage return and the line
  separator is \<open>\n\<close>, the file written is the file with only the span replaced.
\<close>

theorem writes_only_the_fragment:
  "(process_article os_linesep folder_path folder_dir True = Inr (r, d') \<longrightarrow> d' = folder_dir)
   \<and> (process_article os_linesep folder_path folder_dir False = Inr (r, d') \<longrightarrow> changes r = []
        \<longrightarrow> d' = folder_dir)
   \<and> (process_article os_linesep folder_path folder_dir False = Inr (r, d') \<longrightarrow> changes r \<noteq> [] \<longrightarrow>
        (\<exists>stored html available_images start end new_content new_html.
           map_of folder_dir ''article.html'' = Some (File stored)
           \<and> html = universal_newlines stored
           \<and> get_available_images folder_dir = Inr available_images
           \<and> extract_content_section html
               = (int start, int end, take (end - start) (drop start html))
           \<and> start \<le> end \<and> end \<le> length html
           \<and> new_content = fst (replace_images_in_content (take (end - start) (drop start html))
                                   available_images False (path_name folder_path))
           \<and> new_html = take start html @ new_content @ drop end html
           \<and> d' = AList.update ''article.html'' (File (write_newlines os_linesep new_html))
                  folder_dir
           \<and> map_of d' ''article.html'' = Some (File (write_newlines os_linesep new_html))
           \<and> (\<forall>name. name \<noteq> ''article.html'' \<longrightarrow> map_of d' name = map_of folder_dir name)
           \<and> take start new_html = take start html
           \<and> drop (start + length new_content) new_html = drop end html
           \<and> (char_cr \<notin> set stored \<longrightarrow> os_linesep = [char_lf] \<longrightarrow>
                 map_of d' ''article.html''
                   = Some (File (take start stored @ new_content @ drop end stored)))))"
proof -
  have split: "(\<exists>html av. read_article folder_dir = Inr html \<and> get_available_images folder_dir = Inr av
        \<and> content_search 0 html = None \<and> d' = folder_dir \<and> changes r = [])
      \<or> (\<exists>html av st en nc chs. read_article folder_dir = Inr html
        \<and> get_available_images folder_dir = Inr av
        \<and> content_search 0 html = Some (st, en)
        \<and> replace_images_in_content (take (en - st) (drop st html)) av dry
             (path_name folder_path) = (nc, chs)
        \<and> changes r = chs
        \<and> d' = (if \<not> dry \<and> chs \<noteq> []
                 then AList.update ''article.html''
                        (File (write_newlines os_linesep (take st html @ nc @ drop en html)))
                        folder_dir
                 else folder_dir))"
    if pa: "process_article os_linesep folder_path folder_dir dry = Inr (r, d')" for dry
  proof -
    from pa obtain html av where ra: "read_article folder_dir = Inr html"
      and ga: "get_available_images folder_dir = Inr av"
      by (rule process_article_Inr)
    show ?thesis
    proof (cases "content_search 0 html")
      case None
      from process_article_not_found [OF ra ga None, of os_linesep folder_path dry] pa
      have "d' = folder_dir \<and> changes r = []" by auto
      with ra ga None show ?thesis by blast
    next
      case (Some t)
      obtain st en where t: "t = (st, en)" by (cases t) auto
      obtain nc chs where R: "replace_images_in_content (take (en - st) (drop st html)) av dry
             (path_name folder_path) = (nc, chs)"
        by force
      from process_article_found [OF ra ga Some [unfolded t] R] pa
      have "changes r = chs \<and> d' = (if \<not> dry \<and> chs \<noteq> []
                 then AList.update ''article.html''
                        (File (write_newlines os_linesep (take st html @ nc @ drop en html)))
                        folder_dir
                 else folder_dir)"
        by auto
      with ra ga Some [unfolded t] R show ?thesis by blast
    qed
  qed
  have 1: "d' = folder_dir" if "process_article os_linesep folder_path folder_dir True = Inr (r, d')"
    using split [OF that] by auto
  have 2: "d' = folder_dir" if "process_article os_linesep folder_path folder_dir False = Inr (r, d')"
    and "changes r = []"
    using split [OF that(1)] that(2) by auto
  have 3: "\<exists>stored html available_images start end new_content new_html.
           map_of folder_dir ''article.html'' = Some (File stored)
           \<and> html = universal_newlines stored
           \<and> get_available_images folder_dir = Inr available_images
           \<and> extract_content_section html
               = (int start, int end, take (end - start) (drop start html))
           \<and> start \<le> end \<and> end \<le> length html
           \<and> new_content = fst (replace_images_in_content (take (end - start) (drop start html))
                                   available_images False (path_name folder_path))
           \<and> new_html = take start html @ new_content @ drop end html
           \<and> d' = AList.update ''article.html'' (File (write_newlines os_linesep new_html))
                  folder_dir
           \<and> map_of d' ''article.html'' = Some (File (write_newlines os_linesep new_html))
           \<and> (\<forall>name. name \<noteq> ''article.html'' \<longrightarrow> map_of d' name = map_of folder_dir name)
           \<and> take start new_html = take start html
           \<and> drop (start + length new_content) new_html = drop end html
           \<and> (char_cr \<notin> set stored \<longrightarrow> os_linesep = [char_lf] \<longrightarrow>
                 map_of d' ''article.html''
                   = Some (File (take start stored @ new_content @ drop end stored)))"
    if pa: "process_article os_linesep folder_path folder_dir False = Inr (r, d')" and ne: "changes r \<noteq> []"
  proof -
    from split [OF pa] ne obtain html av st en nc chs where
      ra: "read_article folder_dir = Inr html" and ga: "get_available_images folder_dir = Inr av"
      and cs: "content_search 0 html = Some (st, en)"
      and R: "replace_images_in_content (take (en - st) (drop st html)) av False
             (path_name folder_path) = (nc, chs)"
      and d': "d' = AList.update ''article.html''
                 (File (write_newlines os_linesep (take st html @ nc @ drop en html))) folder_dir"
      by auto
    from ra obtain stored where sto: "map_of folder_dir ''article.html'' = Some (File stored)"
      and html: "html = universal_newlines stored"
      by (rule read_article_Inr)
    from content_search_found [OF cs] have le: "st \<le> en" "en \<le> length html"
      by blast+
    define new_html where "new_html = take st html @ nc @ drop en html"
    have lt: "length (take st html) = st" using le by simp
    have a: "take st new_html = take st html"
      unfolding new_html_def using lt by simp
    have "new_html = (take st html @ nc) @ drop en html" "length (take st html @ nc) = st + length nc"
      using lt by (simp_all add: new_html_def)
    then have b: "drop (st + length nc) new_html = drop en html"
      by (metis append_eq_conv_conj)
    have c: "map_of d' ''article.html'' = Some (File (write_newlines os_linesep new_html))"
      unfolding d' new_html_def by (simp add: update_conv')
    have f: "char_cr \<notin> set stored \<longrightarrow> os_linesep = [char_lf] \<longrightarrow>
                 map_of d' ''article.html''
                   = Some (File (take st stored @ nc @ drop en stored))"
    proof (intro impI)
      assume nocr: "char_cr \<notin> set stored" and ls: "os_linesep = [char_lf]"
      have "html = stored"
        unfolding html using nocr by (rule universal_newlines_id)
      then have "new_html = take st stored @ nc @ drop en stored"
        by (simp only: new_html_def)
      moreover have "write_newlines os_linesep new_html = new_html"
        unfolding ls by (rule write_newlines_lf)
      ultimately show "map_of d' ''article.html''
                   = Some (File (take st stored @ nc @ drop en stored))"
        using c by (simp only:)
    qed
    have d: "\<forall>name. name \<noteq> ''article.html'' \<longrightarrow> map_of d' name = map_of folder_dir name"
      unfolding d' by (simp add: update_conv')
    have e: "nc = fst (replace_images_in_content (take (en - st) (drop st html)) av False
                         (path_name folder_path))"
      using R by simp
    have d'': "d' = AList.update ''article.html'' (File (write_newlines os_linesep new_html))
                 folder_dir"
      unfolding d' new_html_def ..
    show ?thesis
      by (intro exI [of _ stored] exI [of _ html] exI [of _ av] exI [of _ st] exI [of _ en]
            exI [of _ nc] exI [of _ new_html] conjI)
        (rule sto html ga extract_found [OF cs] le e new_html_def d'' c d a b f)+
  qed
  from 1 2 3 show ?thesis by blast
qed

theorem writes_only_the_fragment_witness:
  "(\<exists>r. process_article [char_lf] [''articles'', ''a1''] article_folder True = Inr (r, article_folder))
   \<and> (\<exists>r d'. process_article [char_lf] [''articles'', ''a1''] article_folder False = Inr (r, d')
         \<and> changes r \<noteq> []
         \<and> map_of d' ''article.html'' = Some (File article_html_after)
         \<and> map_of d' ''image-2.webp'' = Some (File []))"
proof -
  let ?p = "[''articles'', ''a1'']"
  let ?av = "[''image-2.webp'', ''image-10.webp'']"
  have R: "replace_images_in_content (take (90 - 27) (drop 27 article_html)) ?av dry (path_name ?p)
           = (fst (replace_images_in_content two_images ?av False ''a1''),
              snd (replace_images_in_content two_images ?av False ''a1''))" for dry
    unfolding fragment_article_html
    using engine_args [of two_images ?av dry "path_name ?p" False "''a1''"] by simp
  note pt = process_article_found [OF read_article_folder inventory_article_folder
      content_search_article_html R, where dry = True and ls = "[char_lf]"]
  note pf = process_article_found [OF read_article_folder inventory_article_folder
      content_search_article_html R, where dry = False and ls = "[char_lf]"]
  obtain r1 d1 where 1: "process_article [char_lf] ?p article_folder True = Inr (r1, d1)"
    using pt by blast
  with writes_only_the_fragment [of "[char_lf]" ?p article_folder r1 d1] have "d1 = article_folder"
    by blast
  with 1 have a: "\<exists>r. process_article [char_lf] ?p article_folder True = Inr (r, article_folder)"
    by blast
  obtain r2 d2 where 2: "process_article [char_lf] ?p article_folder False = Inr (r2, d2)"
    and c2: "changes r2 = snd (replace_images_in_content two_images ?av False ''a1'')"
    using pf by simp
  have ne: "changes r2 \<noteq> []"
    unfolding c2 engine_article_folder by simp
  note e = writes_only_the_fragment [of "[char_lf]" ?p article_folder r2 d2, THEN conjunct2, THEN conjunct2,
      rule_format, OF 2 ne]
  from e obtain stored html av st en nc nh where
    h0: "map_of article_folder ''article.html'' = Some (File stored)"
      "html = universal_newlines stored"
    and h: "get_available_images article_folder = Inr av"
      "extract_content_section html = (int st, int en, take (en - st) (drop st html))"
      "nc = fst (replace_images_in_content (take (en - st) (drop st html)) av False (path_name ?p))"
      "nh = take st html @ nc @ drop en html"
      "map_of d2 ''article.html'' = Some (File (write_newlines [char_lf] nh))"
      "\<forall>name. name \<noteq> ''article.html'' \<longrightarrow> map_of d2 name = map_of article_folder name"
    by (elim exE conjE) (rule that; assumption)
  from h0(1) have "stored = article_html" by (simp add: article_folder_def)
  with h0(2) read_article_folder have html: "html = article_html"
    by (simp add: read_article_def article_folder_def)
  from h(1) inventory_article_folder have av: "av = ?av" by simp
  from h(2) extract_article_html have se: "st = 27" "en = 90"
    unfolding html by simp_all
  have nc: "nc = fst (replace_images_in_content two_images ?av False ''a1'')"
    unfolding h(3) html av se fragment_article_html
    using engine_args [of two_images ?av False "path_name ?p" False "''a1''"] by simp
  have "nh = article_html_after"
    unfolding h(4) html se nc by (rule splice_article_html)
  with h(5) have b1: "map_of d2 ''article.html'' = Some (File article_html_after)"
    by (simp add: write_newlines_lf)
  have "map_of article_folder ''image-2.webp'' = Some (File [])"
    by (simp add: article_folder_def)
  with h(6) have b2: "map_of d2 ''image-2.webp'' = Some (File [])"
    by simp
  from 2 ne b1 b2 have "\<exists>r d'. process_article [char_lf] ?p article_folder False = Inr (r, d')
         \<and> changes r \<noteq> []
         \<and> map_of d' ''article.html'' = Some (File article_html_after)
         \<and> map_of d' ''image-2.webp'' = Some (File [])"
    by (intro exI [of _ r2] exI [of _ d2] conjI)
  with a show ?thesis by (rule conjI)
qed

text \<open>
  C7, as stated, fails: for a document with no content section the article processor does
  not always record the error and let the run go on. The processor lists the inventory
  before it looks for the section: in a folder that also holds \<open>image-cover.webp\<close>, a name
  with no number, the sort key raises, no result is returned and the loop over the folders
  stops.
\<close>

theorem inventory_raises_before_extraction:
  "extract_content_section plain_html = (- 1, - 1, [])
   \<and> read_article bad_inventory_folder = Inr plain_html
   \<and> get_available_images bad_inventory_folder = Inl AttributeError
   \<and> process_article [char_lf] [''articles'', ''a2''] bad_inventory_folder False
       = Inl AttributeError
   \<and> main_loop [char_lf] False
         [([''articles'', ''a2''], bad_inventory_folder), ([''articles'', ''a3''], plain_folder)]
       = ([], Some AttributeError)"
  by code_simp

text \<open>
  C7, amended. When the document has a place where \<open><div class="content">\<close> is followed by
  any text, \<open></div>\<close>, white space or none and \<open></body>\<close>, the extractor returns the span and
  the text of the middle group of the first such place, with the shortest middle text: no
  such place starts earlier or ends earlier. When it has none, the extractor returns start
  \<open>-1\<close> and the empty text; and when the article was read and the inventory of the folder
  was listed without an error, which the processor does before it looks for the section, the
  article processor returns a result with the one error \<open>Sezione .content non trovata\<close>, no
  change record and the folder as it was, and the loop over the folders goes on with the next
  folder.
\<close>

theorem content_fragment_first_match:
  "((\<exists>st en. content_occurs html st en) \<longrightarrow>
      (\<exists>st en. extract_content_section html = (int st, int en, take (en - st) (drop st html))
         \<and> content_occurs html st en
         \<and> (\<forall>st2 en2. content_occurs html st2 en2 \<longrightarrow> st \<le> st2 \<and> en \<le> en2)))
   \<and> (\<not> (\<exists>st en. content_occurs html st en) \<longrightarrow>
        extract_content_section html = (- 1, - 1, [])
        \<and> (read_article folder_dir = Inr html \<longrightarrow>
            get_available_images folder_dir = Inr available_images \<longrightarrow>
              (\<exists>r. process_article os_linesep folder_path folder_dir dry_run = Inr (r, folder_dir)
                 \<and> changes r = []
                 \<and> errors r = [''Sezione .content non trovata'']
                 \<and> images_in_html r = 0
                 \<and> images_available r = length available_images
                 \<and> main_loop os_linesep dry_run ((folder_path, folder_dir) # rest)
                     = (case main_loop os_linesep dry_run rest of
                          (rs, err) \<Rightarrow> ((r, folder_dir) # rs, err)))))"
proof (intro conjI impI)
  assume "\<exists>st en. content_occurs html st en"
  then have "content_search 0 html \<noteq> None"
    by (simp add: content_search_none_iff)
  then obtain st en where cs: "content_search 0 html = Some (st, en)" by auto
  from content_search_found [OF cs] extract_found [OF cs]
  show "\<exists>st en. extract_content_section html = (int st, int en, take (en - st) (drop st html))
         \<and> content_occurs html st en
         \<and> (\<forall>st2 en2. content_occurs html st2 en2 \<longrightarrow> st \<le> st2 \<and> en \<le> en2)"
    by blast
next
  assume "\<not> (\<exists>st en. content_occurs html st en)"
  then have n: "content_search 0 html = None"
    by (simp add: content_search_none_iff)
  then show "extract_content_section html = (- 1, - 1, [])"
    by (rule extract_none)
  assume ra: "read_article folder_dir = Inr html"
    and ga: "get_available_images folder_dir = Inr available_images"
  note pa = process_article_not_found [OF ra ga n, of os_linesep folder_path dry_run]
  let ?r = "\<lparr>folder = path_name folder_path, path = path_str folder_path, changes = [],
             errors = [''Sezione .content non trovata''], images_in_html = 0,
             images_available = length available_images\<rparr>"
  show "\<exists>r. process_article os_linesep folder_path folder_dir dry_run = Inr (r, folder_dir)
                 \<and> changes r = []
                 \<and> errors r = [''Sezione .content non trovata'']
                 \<and> images_in_html r = 0
                 \<and> images_available r = length available_images
                 \<and> main_loop os_linesep dry_run ((folder_path, folder_dir) # rest)
                     = (case main_loop os_linesep dry_run rest of
                          (rs, err) \<Rightarrow> ((r, folder_dir) # rs, err))"
    using pa main_loop_step [OF pa, where rest = rest]
    by (intro exI [of _ ?r]) simp
qed

theorem content_fragment_first_match_witness:
  "content_occurs article_html 27 90
   \<and> extract_content_section article_html = (27, 90, two_images)
   \<and> \<not> (\<exists>st en. content_occurs plain_html st en)
   \<and> extract_content_section plain_html = (- 1, - 1, [])
   \<and> read_article plain_folder = Inr plain_html
   \<and> get_available_images plain_folder = Inr []
   \<and> (\<exists>r. process_article [char_lf] [''articles'', ''a2''] plain_folder False
              = Inr (r, plain_folder)
         \<and> changes r = []
         \<and> errors r = [''Sezione .content non trovata'']
         \<and> main_loop [char_lf] False [([''articles'', ''a2''], plain_folder)]
             = ([(r, plain_folder)], None))"
proof -
  have occ: "content_occurs article_html 27 90"
    using content_search_found [OF content_search_article_html] by blast
  then have ex: "\<exists>st en. content_occurs article_html st en" by blast
  note t1 = content_fragment_first_match [of article_html, THEN conjunct1, THEN mp, OF ex]
  from t1 obtain st en where
    e: "extract_content_section article_html
          = (int st, int en, take (en - st) (drop st article_html))"
    by (elim exE conjE)
  have e1: "extract_content_section article_html = (27, 90, two_images)"
    by (rule extract_article_html)
  have no: "\<not> (\<exists>st en. content_occurs plain_html st en)"
    using content_search_plain_html by (simp add: content_search_none_iff)
  note t2 = content_fragment_first_match [of plain_html plain_folder "[]" "[char_lf]"
      "[''articles'', ''a2'']" False "[]", THEN conjunct2, THEN mp, OF no]
  from t2 have e2: "extract_content_section plain_html = (- 1, - 1, [])"
    by (rule conjunct1)
  note t3 = t2 [THEN conjunct2, THEN mp, OF read_plain_folder, THEN mp, OF inventory_plain_folder]
  from t3 obtain r where
    r: "process_article [char_lf] [''articles'', ''a2''] plain_folder False = Inr (r, plain_folder)"
      "changes r = []" "errors r = [''Sezione .content non trovata'']"
      "main_loop [char_lf] False (([''articles'', ''a2''], plain_folder) # [])
         = (case main_loop [char_lf] False [] of (rs, err) \<Rightarrow> ((r, plain_folder) # rs, err))"
    by (elim exE conjE)
  from r(4) have m: "main_loop [char_lf] False [([''articles'', ''a2''], plain_folder)]
             = ([(r, plain_folder)], None)"
    by simp
  from r(1,2,3) m have "\<exists>r. process_article [char_lf] [''articles'', ''a2''] plain_folder False
              = Inr (r, plain_folder)
         \<and> changes r = []
         \<and> errors r = [''Sezione .content non trovata'']
         \<and> main_loop [char_lf] False [([''articles'', ''a2''], plain_folder)]
             = ([(r, plain_folder)], None)"
    by (intro exI [of _ r] conjI)
  with occ e1 no e2 read_plain_folder inventory_plain_folder show ?thesis
    by (intro conjI)
qed

text \<open>
  C8, as stated, fails. The inventory takes every entry of the folder whose name starts with
  \<open>image-\<close> and ends with \<open>.webp\<close>, and never asks whether the entry is a file. In a folder
  with the file \<open>image-2.webp\<close> and a directory named \<open>image-3.webp\<close> the only matching file
  is \<open>image-2.webp\<close>, and its name contains \<open>image-\<close> and digits, yet the inventory is
  \<open>image-2.webp\<close>, \<open>image-3.webp\<close>. With a directory named \<open>image-old.webp\<close> in place of
  that one, the inventory raises, although the name of every matching file has its number.
\<close>

theorem directory_listed_as_image:
  "image_file_names folder_with_image_dir = [''image-2.webp'']
   \<and> search_image_number ''image-2.webp'' = Some ''2''
   \<and> get_available_images folder_with_image_dir = Inr [''image-2.webp'', ''image-3.webp'']
   \<and> image_file_names folder_with_unnumbered_dir = [''image-2.webp'']
   \<and> get_available_images folder_with_unnumbered_dir = Inl AttributeError"
  by code_simp

text \<open>
  C8, amended. For every folder in which no entry whose name starts with \<open>image-\<close> and ends
  with \<open>.webp\<close> is a directory, and in which search for \<open>image-\<close> and digits succeeds in the
  name of every direct child file that starts with \<open>image-\<close> and ends with \<open>.webp\<close>, the
  inventory is exactly the names of these files, each as often as the folder lists it, in
  ascending order of the number found in the name; for the name \<open>image-N.webp\<close> that number
  is \<open>N\<close>. The order is by number and not by text: \<open>image-2.webp\<close> comes before
  \<open>image-10.webp\<close>.
\<close>

theorem inventory_sorted_by_number:
  "((\<forall>(name, e)\<in>set folder_dir.
        prefix ''image-'' name \<and> suffix ''.webp'' name \<longrightarrow> \<not> is_dir e) \<longrightarrow>
    (\<forall>x\<in>set (image_file_names folder_dir). search_image_number x \<noteq> None) \<longrightarrow>
      (\<exists>images keys. get_available_images folder_dir = Inr images
         \<and> mset images = mset (image_file_names folder_dir)
         \<and> map image_key images = map Inr keys \<and> sorted keys))
   \<and> image_key (''image-'' @ str_nat n @ ''.webp'') = Inr n"
proof (intro conjI impI)
  assume nd: "\<forall>(name, e)\<in>set folder_dir.
                prefix ''image-'' name \<and> suffix ''.webp'' name \<longrightarrow> \<not> is_dir e"
    and nm: "\<forall>x\<in>set (image_file_names folder_dir). search_image_number x \<noteq> None"
  note eq = image_file_names_all [OF nd]
  from nm have "\<forall>x\<in>set (filter (\<lambda>name. prefix ''image-'' name \<and> suffix ''.webp'' name)
                           (map fst folder_dir)). search_image_number x \<noteq> None"
    unfolding eq .
  from inventory_result [OF this]
  show "\<exists>images keys. get_available_images folder_dir = Inr images
         \<and> mset images = mset (image_file_names folder_dir)
         \<and> map image_key images = map Inr keys \<and> sorted keys"
    unfolding eq .
next
  show "image_key (''image-'' @ str_nat n @ ''.webp'') = Inr n"
    using image_key_image_filename [of n] unfolding image_filename_def .
qed

theorem inventory_sorted_by_number_witness:
  "image_file_names article_folder = [''image-10.webp'', ''image-2.webp'']
   \<and> search_image_number ''image-10.webp'' \<noteq> None
   \<and> search_image_number ''image-2.webp'' \<noteq> None
   \<and> get_available_images article_folder = Inr [''image-2.webp'', ''image-10.webp'']
   \<and> (\<exists>keys. map image_key [''image-2.webp'', ''image-10.webp''] = map Inr keys \<and> sorted keys)
   \<and> ''image-10.webp'' < ''image-2.webp''"
proof -
  have n: "image_file_names article_folder = [''image-10.webp'', ''image-2.webp'']"
    by code_simp
  have a: "search_image_number ''image-10.webp'' \<noteq> None"
    and b: "search_image_number ''image-2.webp'' \<noteq> None"
    unfolding numbers_article_folder by simp_all
  have nd: "\<forall>(name, e)\<in>set article_folder.
              prefix ''image-'' name \<and> suffix ''.webp'' name \<longrightarrow> \<not> is_dir e"
    unfolding article_folder_def by (simp add: is_dir_def)
  have h: "\<forall>x\<in>set (image_file_names article_folder). search_image_number x \<noteq> None"
    unfolding n using a b by simp
  note t = inventory_sorted_by_number [of article_folder 0, THEN conjunct1, THEN mp, THEN mp,
      OF nd h]
  from t obtain images keys where g: "get_available_images article_folder = Inr images"
    and k: "map image_key images = map Inr keys" "sorted keys"
    by (elim exE conjE)
  from g inventory_article_folder have "images = [''image-2.webp'', ''image-10.webp'']"
    by simp
  with k have "\<exists>keys. map image_key [''image-2.webp'', ''image-10.webp''] = map Inr keys \<and> sorted keys"
    by blast
  with n a b inventory_article_folder lexicographic_10_2 show ?thesis
    by (intro conjI)
qed

text \<open>
  C9, as stated, fails in two ways. When \<open>articles\<close> exists in the base directory and is a
  file, not a directory, the scanner does not return a list: listing it raises. And the
  scanner asks only whether \<open>article.html\<close> exists in a folder, not whether it is a file: a
  folder of \<open>articles\<close> whose only entry is a directory named \<open>article.html\<close> has no file of
  that name and is returned.
\<close>

theorem scanner_raises_or_lists_directory:
  "find_article_folders [''site''] base_with_file = Inl NotADirectoryError
   \<and> map_of base_with_article_dir ''articles''
       = Some (Dir [(''x'', Dir [(''article.html'', Dir [])])])
   \<and> map_of base_with_article_dir ''feedback-friday'' = None
   \<and> qualifying [''site''] base_with_article_dir ''articles'' = {}
   \<and> qualifying [''site''] base_with_article_dir ''feedback-friday'' = {}
   \<and> find_article_folders [''site''] base_with_article_dir
       = Inr [[''site'', ''articles'', ''x'']]"
proof -
  have 1: "find_article_folders [''site''] base_with_file = Inl NotADirectoryError"
    by code_simp
  have 2: "map_of base_with_article_dir ''articles''
             = Some (Dir [(''x'', Dir [(''article.html'', Dir [])])])"
    and 3: "map_of base_with_article_dir ''feedback-friday'' = None"
    by (simp_all add: base_with_article_dir_def)
  have 4: "find_article_folders [''site''] base_with_article_dir
             = Inr [[''site'', ''articles'', ''x'']]"
    by code_simp
  from 1 2 3 no_file_in_article_dir no_feedback_in_article_dir 4 show ?thesis
    by (intro conjI)
qed

text \<open>
  C9, amended. For every base directory in which neither \<open>articles\<close> nor
  \<open>feedback-friday\<close> is a file, and in which no folder directly inside these two
  subdirectories has a directory named \<open>article.html\<close>, the scanner returns the paths of
  exactly the directories, directly inside the subdirectories of these two names, that have
  a direct child file named \<open>article.html\<close>, in ascending order of the paths; a folder
  without \<open>article.html\<close> is not among them, and a subdirectory that does not exist adds none
  and raises nothing.
\<close>

theorem folders_found_and_sorted:
  assumes "\<forall>f. map_of base ''articles'' \<noteq> Some (File f)"
    and "\<forall>f. map_of base ''feedback-friday'' \<noteq> Some (File f)"
    and "\<forall>subdir\<in>{''articles'', ''feedback-friday''}. \<forall>children name es e.
           map_of base subdir = Some (Dir children) \<longrightarrow> (name, Dir es) \<in> set children \<longrightarrow>
           (''article.html'', e) \<in> set es \<longrightarrow> \<not> is_dir e"
  shows "\<exists>folders. find_article_folders base_path base = Inr folders
           \<and> sorted folders
           \<and> set folders = qualifying base_path base ''articles''
                            \<union> qualifying base_path base ''feedback-friday''"
proof -
  from assms(3) have a: "\<forall>children name es e. map_of base ''articles'' = Some (Dir children) \<longrightarrow>
      (name, Dir es) \<in> set children \<longrightarrow> (''article.html'', e) \<in> set es \<longrightarrow> \<not> is_dir e"
    and b: "\<forall>children name es e. map_of base ''feedback-friday'' = Some (Dir children) \<longrightarrow>
      (name, Dir es) \<in> set children \<longrightarrow> (''article.html'', e) \<in> set es \<longrightarrow> \<not> is_dir e"
    by simp_all
  from find_article_folders_result [OF assms(1,2), of base_path]
  show ?thesis
    unfolding listed_eq_qualifying [OF a] listed_eq_qualifying [OF b] .
qed

theorem folders_found_and_sorted_witness:
  "map_of base_tree ''articles''
     = Some (Dir [(''k'', Dir [(''article.html'', File [])]),
                  (''c'', Dir [(''image-2.webp'', File [])]),
                  (''notes.txt'', File []),
                  (''a-b'', Dir [(''article.html'', File [])])])
   \<and> map_of base_tree ''feedback-friday''
     = Some (Dir [(''z'', Dir [(''article.html'', File [])]),
                  (''b'', Dir [(''article.html'', File []), (''image-2.webp'', File [])])])
   \<and> find_article_folders [''site''] base_tree =
       Inr [[''site'', ''articles'', ''a-b''], [''site'', ''articles'', ''k''],
            [''site'', ''feedback-friday'', ''b''], [''site'', ''feedback-friday'', ''z'']]
   \<and> sorted [[''site'', ''articles'', ''a-b''], [''site'', ''articles'', ''k''],
              [''site'', ''feedback-friday'', ''b''], [''site'', ''feedback-friday'', ''z'']]
   \<and> set [[''site'', ''articles'', ''a-b''], [''site'', ''articles'', ''k''],
           [''site'', ''feedback-friday'', ''b''], [''site'', ''feedback-friday'', ''z'']]
       = qualifying [''site''] base_tree ''articles''
         \<union> qualifying [''site''] base_tree ''feedback-friday''"
proof -
  have ma: "map_of base_tree ''articles''
     = Some (Dir [(''k'', Dir [(''article.html'', File [])]),
                  (''c'', Dir [(''image-2.webp'', File [])]),
                  (''notes.txt'', File []),
                  (''a-b'', Dir [(''article.html'', File [])])])"
    and mf: "map_of base_tree ''feedback-friday''
     = Some (Dir [(''z'', Dir [(''article.html'', File [])]),
                  (''b'', Dir [(''article.html'', File []), (''image-2.webp'', File [])])])"
    by (simp_all add: base_tree_def)
  have a: "\<forall>f. map_of base_tree ''articles'' \<noteq> Some (File f)"
    and b: "\<forall>f. map_of base_tree ''feedback-friday'' \<noteq> Some (File f)"
    unfolding ma mf by simp_all
  have c: "\<forall>subdir\<in>{''articles'', ''feedback-friday''}. \<forall>children name es e.
           map_of base_tree subdir = Some (Dir children) \<longrightarrow> (name, Dir es) \<in> set children \<longrightarrow>
           (''article.html'', e) \<in> set es \<longrightarrow> \<not> is_dir e"
    unfolding ball_simps ma mf by (auto simp: is_dir_def)
  from folders_found_and_sorted [OF a b c, of "[''site'']"]
  obtain folders where f: "find_article_folders [''site''] base_tree = Inr folders"
    and s: "sorted folders"
      "set folders = qualifying [''site''] base_tree ''articles''
                     \<union> qualifying [''site''] base_tree ''feedback-friday''"
    by (elim exE conjE)
  from f find_base_tree have
    "folders = [[''site'', ''articles'', ''a-b''], [''site'', ''articles'', ''k''],
                [''site'', ''feedback-friday'', ''b''], [''site'', ''feedback-friday'', ''z'']]"
    by simp
  with s have "sorted [[''site'', ''articles'', ''a-b''], [''site'', ''articles'', ''k''],
              [''site'', ''feedback-friday'', ''b''], [''site'', ''feedback-friday'', ''z'']]"
    and "set [[''site'', ''articles'', ''a-b''], [''site'', ''articles'', ''k''],
           [''site'', ''feedback-friday'', ''b''], [''site'', ''feedback-friday'', ''z'']]
       = qualifying [''site''] base_tree ''articles''
         \<union> qualifying [''site''] base_tree ''feedback-friday''"
    by simp_all
  with ma mf find_base_tree show ?thesis
    by (intro conjI)
qed

text \<open>
  C10, as stated, fails. An \<open>img\<close> tag whose \<open>src\<close> comes after another
  attribute, or whose value is in single quotes, is modified when it lies in the value of a
  counted occurrence. After \<open><img src="a.jpg> \<close>, where the closing quote is missing, the
  value runs on to the next double quote and takes in \<open><img class=\<close> of the tag that
  follows: the record has that text as its old URL and the tag loses its beginning. And a
  tag in single quotes that stands inside a double quoted value is replaced with the value.
\<close>

theorem tag_inside_value_rewritten:
  \<open>swallowed_tag = ''<img src="a.jpg> '' @ attr_first_image
   \<and> replace_images_in_content swallowed_tag [''image-2.webp''] False ''a1''
       = (''<img src="image-2.webp"x" src="https://cdn.x/a.jpg">'',
          [\<lparr>index = 1, old_url = ''a.jpg> <img class='', new_url = ''image-2.webp'',
            exists = True\<rparr>])
   \<and> quoted_single_tag = ''<img src="see '' @ single_quoted_image @ ''">''
   \<and> replace_images_in_content quoted_single_tag [''image-2.webp''] False ''a1''
       = (''<img src="image-2.webp">'',
          [\<lparr>index = 1, old_url = ''see '' @ single_quoted_image, new_url = ''image-2.webp'',
            exists = True\<rparr>])\<close>
proof -
  have 1: \<open>swallowed_tag = ''<img src="a.jpg> '' @ attr_first_image\<close>
    by (rule swallowed_tag_def)
  have 2: \<open>replace_images_in_content swallowed_tag [''image-2.webp''] False ''a1''
       = (''<img src="image-2.webp"x" src="https://cdn.x/a.jpg">'',
          [\<lparr>index = 1, old_url = ''a.jpg> <img class='', new_url = ''image-2.webp'',
            exists = True\<rparr>])\<close>
    by code_simp
  have 3: \<open>quoted_single_tag = ''<img src="see '' @ single_quoted_image @ ''">''\<close>
    by (rule quoted_single_tag_def)
  have 4: \<open>replace_images_in_content quoted_single_tag [''image-2.webp''] False ''a1''
       = (''<img src="image-2.webp">'',
          [\<lparr>index = 1, old_url = ''see '' @ single_quoted_image, new_url = ''image-2.webp'',
            exists = True\<rparr>])\<close>
    by code_simp
  from 1 2 3 4 show ?thesis
    by (intro conjI)
qed

text \<open>
  C10, amended. Every match the engine counts has the literal shape \<open><img\<close>, white space,
  \<open>src="\<close>, a value that is not empty and has no double quote, and the closing double quote,
  at the place where the match starts; the old URLs of the records are the values of these
  matches, and the output is the fragment with the spans of these values replaced. A fragment
  with no place of that shape is returned unchanged with no record; so are, alone, an \<open>img\<close>
  tag whose \<open>src\<close> comes after another attribute and one whose value is in single quotes. In
  every fragment no match starts at a place where \<open><img\<close> and the white space after it are
  followed by anything but \<open>src="\<close>, so such a tag is never an occurrence and has no record of
  its own; and every part of the fragment that overlaps the value of no match stands
  unchanged in the output. Such a tag is modified only where it overlaps the value of a
  counted occurrence.
\<close>

theorem engine_counts_only_literal_shape:
  \<open>(\<forall>m\<in>set (finditer content). img_shape_at content (start0 m) (group1 m))
   \<and> map old_url (snd (replace_images_in_content content available_images dry_run folder_name))
       = map group1 (finditer content)
   \<and> fst (replace_images_in_content content available_images dry_run folder_name)
       = splice_groups content 0 (finditer content)
           (map url_after (snd (replace_images_in_content content available_images dry_run folder_name)))
   \<and> ((\<forall>p url. \<not> img_shape_at content p url)
        \<longrightarrow> replace_images_in_content content available_images dry_run folder_name = (content, []))
   \<and> replace_images_in_content attr_first_image available_images dry_run folder_name
       = (attr_first_image, [])
   \<and> replace_images_in_content single_quoted_image available_images dry_run folder_name
       = (single_quoted_image, [])
   \<and> (\<forall>p ws rest.
         drop p content = ''<img'' @ ws @ rest \<and> (\<forall>c\<in>set ws. is_space c)
         \<and> (rest = [] \<or> \<not> is_space (hd rest)) \<and> \<not> prefix (''src='' @ [dquote]) rest
         \<longrightarrow> (\<forall>m\<in>set (finditer content). start0 m \<noteq> p))
   \<and> (\<forall>before part after.
         content = before @ part @ after
         \<and> (\<forall>m\<in>set (finditer content).
               end1 m \<le> length before \<or> length before + length part \<le> start1 m)
         \<longrightarrow> (\<exists>before' after'.
                fst (replace_images_in_content content available_images dry_run folder_name)
                  = before' @ part @ after'))\<close>
proof (intro conjI)
  show shape: "\<forall>m\<in>set (finditer content). img_shape_at content (start0 m) (group1 m)"
  proof
    fix m assume "m \<in> set (finditer content)"
    then show "img_shape_at content (start0 m) (group1 m)"
      using finditer_from_shape [of m 0 content] by (simp add: finditer_def)
  qed
  show "map old_url (snd (replace_images_in_content content available_images dry_run folder_name))
       = map group1 (finditer content)"
    by (simp add: engine_eq map_old_url_expected)
  show "fst (replace_images_in_content content available_images dry_run folder_name)
       = splice_groups content 0 (finditer content)
           (map url_after (snd (replace_images_in_content content available_images dry_run folder_name)))"
    by (simp add: engine_eq)
  show "(\<forall>p url. \<not> img_shape_at content p url)
        \<longrightarrow> replace_images_in_content content available_images dry_run folder_name = (content, [])"
  proof
    assume "\<forall>p url. \<not> img_shape_at content p url"
    then have "finditer content = []" by (simp add: no_shape_iff)
    then show "replace_images_in_content content available_images dry_run folder_name = (content, [])"
      by (simp add: replace_images_in_content_def)
  qed
  show "replace_images_in_content attr_first_image available_images dry_run folder_name
       = (attr_first_image, [])"
    by (simp add: replace_images_in_content_def finditer_attr_first_image)
  show "replace_images_in_content single_quoted_image available_images dry_run folder_name
       = (single_quoted_image, [])"
    by (simp add: replace_images_in_content_def finditer_single_quoted_image)
  show "\<forall>p ws rest.
         drop p content = ''<img'' @ ws @ rest \<and> (\<forall>c\<in>set ws. is_space c)
         \<and> (rest = [] \<or> \<not> is_space (hd rest)) \<and> \<not> prefix (''src='' @ [dquote]) rest
         \<longrightarrow> (\<forall>m\<in>set (finditer content). start0 m \<noteq> p)"
  proof (intro allI impI ballI notI, elim conjE)
    fix p ws rest m
    assume d: "drop p content = ''<img'' @ ws @ rest" and ws: "\<forall>c\<in>set ws. is_space c"
      and r: "rest = [] \<or> \<not> is_space (hd rest)" and np: "\<not> prefix (''src='' @ [dquote]) rest"
      and m: "m \<in> set (finditer content)" and s: "start0 m = p"
    from shape m have "img_shape_at content (start0 m) (group1 m)" ..
    then have "img_shape_at content p (group1 m)"
      unfolding s .
    with other_tag_no_shape [OF d ws r np, of "group1 m"] show False ..
  qed
  show "\<forall>before part after.
         content = before @ part @ after
         \<and> (\<forall>m\<in>set (finditer content).
               end1 m \<le> length before \<or> length before + length part \<le> start1 m)
         \<longrightarrow> (\<exists>before' after'.
                fst (replace_images_in_content content available_images dry_run folder_name)
                  = before' @ part @ after')"
  proof (intro allI impI, elim conjE)
    fix before part after
    assume "content = before @ part @ after"
      and "\<forall>m\<in>set (finditer content).
             end1 m \<le> length before \<or> length before + length part \<le> start1 m"
    then show "\<exists>before' after'.
                fst (replace_images_in_content content available_images dry_run folder_name)
                  = before' @ part @ after'"
      by (rule engine_keeps)
  qed
qed

theorem engine_counts_only_literal_shape_witness:
  \<open>mixed_images = attr_first_image @ '' <img src="https://cdn.x/b.jpg">''
   \<and> finditer mixed_images
       = [\<lparr>start0 = 42, end0 = 72, start1 = 52, end1 = 71, group1 = ''https://cdn.x/b.jpg''\<rparr>]
   \<and> img_shape_at mixed_images 42 ''https://cdn.x/b.jpg''
   \<and> drop 0 mixed_images = ''<img'' @ '' '' @ drop 5 mixed_images
   \<and> \<not> prefix (''src='' @ [dquote]) (drop 5 mixed_images)
   \<and> start0 (hd (finditer mixed_images)) \<noteq> 0
   \<and> (\<exists>before' after'.
         fst (replace_images_in_content mixed_images [''image-2.webp''] False ''a1'')
           = before' @ attr_first_image @ after')
   \<and> (\<forall>p url. \<not> img_shape_at attr_first_image p url)
   \<and> replace_images_in_content attr_first_image [''image-2.webp''] False ''a1''
       = (attr_first_image, [])\<close>
proof -
  let ?m = "\<lparr>start0 = 42, end0 = 72, start1 = 52, end1 = 71, group1 = ''https://cdn.x/b.jpg''\<rparr>"
  note t = engine_counts_only_literal_shape [of mixed_images "[''image-2.webp'']" False "''a1''"]
  note u = engine_counts_only_literal_shape [of attr_first_image "[''image-2.webp'']" False "''a1''"]
  have 1: \<open>mixed_images = attr_first_image @ '' <img src="https://cdn.x/b.jpg">''\<close>
    by (simp add: mixed_images_def attr_first_image_def)
  have 2: "finditer mixed_images = [?m]"
    by code_simp
  have in_m: "?m \<in> set (finditer mixed_images)"
    unfolding 2 by simp
  from t [THEN conjunct1] in_m have "img_shape_at mixed_images (start0 ?m) (group1 ?m)"
    by (rule bspec)
  then have 3: "img_shape_at mixed_images 42 ''https://cdn.x/b.jpg''"
    by simp
  have 4: "drop 0 mixed_images = ''<img'' @ '' '' @ drop 5 mixed_images"
    by (simp add: mixed_images_def)
  have sp: "\<forall>c\<in>set '' ''. is_space c"
    by (simp add: is_space_def)
  have ns: "drop 5 mixed_images = [] \<or> \<not> is_space (hd (drop 5 mixed_images))"
    by (simp add: mixed_images_def is_space_def)
  have 5: "\<not> prefix (''src='' @ [dquote]) (drop 5 mixed_images)"
    by (simp add: mixed_images_def dquote_def)
  have hd_in: "hd (finditer mixed_images) \<in> set (finditer mixed_images)"
    unfolding 2 by simp
  from t [THEN conjunct2, THEN conjunct2, THEN conjunct2, THEN conjunct2, THEN conjunct2,
      THEN conjunct2, THEN conjunct1, THEN spec, THEN spec, THEN spec, THEN mp,
      OF conjI [OF 4 conjI [OF sp conjI [OF ns 5]]]]
  have "\<forall>m\<in>set (finditer mixed_images). start0 m \<noteq> 0" .
  from this hd_in have 6: "start0 (hd (finditer mixed_images)) \<noteq> 0"
    by (rule bspec)
  have split: \<open>mixed_images = [] @ attr_first_image @ '' <img src="https://cdn.x/b.jpg">''\<close>
    using 1 by simp
  have ov: "\<forall>m\<in>set (finditer mixed_images).
              end1 m \<le> length ([] :: string)
              \<or> length ([] :: string) + length attr_first_image \<le> start1 m"
    unfolding 2 by (simp add: attr_first_image_def)
  from t [THEN conjunct2, THEN conjunct2, THEN conjunct2, THEN conjunct2, THEN conjunct2,
      THEN conjunct2, THEN conjunct2, THEN spec, THEN spec, THEN spec, THEN mp,
      OF conjI [OF split ov]]
  have 7: "\<exists>before' after'.
         fst (replace_images_in_content mixed_images [''image-2.webp''] False ''a1'')
           = before' @ attr_first_image @ after'" .
  have 8: "\<forall>p url. \<not> img_shape_at attr_first_image p url"
    using finditer_attr_first_image by (simp add: no_shape_iff)
  from u [THEN conjunct2, THEN conjunct2, THEN conjunct2, THEN conjunct1, THEN mp, OF 8]
  have 9: "replace_images_in_content attr_first_image [''image-2.webp''] False ''a1''
              = (attr_first_image, [])" .
  from 1 2 3 4 5 6 7 8 9 show ?thesis
    by (intro conjI)
qed

end
